theory Spec2Isabelle
  imports Main "HOL-Library.Multiset" "HOL-Library.Sublist"
begin

section \<open>The service thread of the runtime (serviceThread.cpp)\<close>

text \<open>
  The file embeds \<^verbatim>\<open>ServiceThread\<close>: its \<^verbatim>\<open>initialize\<close>, the thread entry
  \<^verbatim>\<open>service_thread_entry\<close>, the producer entry \<^verbatim>\<open>enqueue_deferred_event\<close> and the
  root-scan hook \<^verbatim>\<open>oops_do\<close>. The collaborators the thread polls and calls live in
  other files; every call the thread makes to one of them is recorded, in program order,
  in a trace, and what such a call answers (a \<^verbatim>\<open>has_work\<close> predicate, a pending
  exception) is an input of the step that makes the call.
\<close>

subsection \<open>Work sources and the flags of one loop iteration\<close>

text \<open>One constructor for each collaborator the wait condition polls.\<close>

datatype source =
    LowMemoryDetector
  | JvmtiServiceQueue
  | GCNotifier
  | DCmdFactory
  | StringTable
  | SymbolTable
  | ResolvedMethodTable
  | ProtectionDomainTable

text \<open>The nine \<^verbatim>\<open>bool\<close> locals declared at the top of the loop body.\<close>

record flags =
  sensors_changed :: bool
  has_jvmti_events :: bool
  has_gc_notification_event :: bool
  has_dcmd_notification_event :: bool
  acs_notify :: bool
  stringtable_work :: bool
  symboltable_work :: bool
  resolved_method_table_work :: bool
  protection_domain_table_work :: bool

text \<open>The declarations initialise every flag to \<^verbatim>\<open>false\<close>.\<close>

definition declared_flags :: flags where
  "declared_flags =
     \<lparr> sensors_changed = False, has_jvmti_events = False,
       has_gc_notification_event = False, has_dcmd_notification_event = False,
       acs_notify = False, stringtable_work = False, symboltable_work = False,
       resolved_method_table_work = False, protection_domain_table_work = False \<rparr>"

text \<open>The local each conjunct of the wait condition assigns, and reading it back.\<close>

fun assign :: "source \<Rightarrow> bool \<Rightarrow> flags \<Rightarrow> flags" where
  "assign LowMemoryDetector b fl = fl\<lparr>sensors_changed := b\<rparr>"
| "assign JvmtiServiceQueue b fl = fl\<lparr>has_jvmti_events := b\<rparr>"
| "assign GCNotifier b fl = fl\<lparr>has_gc_notification_event := b\<rparr>"
| "assign DCmdFactory b fl = fl\<lparr>has_dcmd_notification_event := b\<rparr>"
| "assign StringTable b fl = fl\<lparr>stringtable_work := b\<rparr>"
| "assign SymbolTable b fl = fl\<lparr>symboltable_work := b\<rparr>"
| "assign ResolvedMethodTable b fl = fl\<lparr>resolved_method_table_work := b\<rparr>"
| "assign ProtectionDomainTable b fl = fl\<lparr>protection_domain_table_work := b\<rparr>"

fun flag_of :: "flags \<Rightarrow> source \<Rightarrow> bool" where
  "flag_of fl LowMemoryDetector = sensors_changed fl"
| "flag_of fl JvmtiServiceQueue = has_jvmti_events fl"
| "flag_of fl GCNotifier = has_gc_notification_event fl"
| "flag_of fl DCmdFactory = has_dcmd_notification_event fl"
| "flag_of fl StringTable = stringtable_work fl"
| "flag_of fl SymbolTable = symboltable_work fl"
| "flag_of fl ResolvedMethodTable = resolved_method_table_work fl"
| "flag_of fl ProtectionDomainTable = protection_domain_table_work fl"

text \<open>How many of the nine flags are set.\<close>

definition num_true :: "flags \<Rightarrow> nat" where
  "num_true fl =
     length (filter id
       [sensors_changed fl, has_jvmti_events fl, has_gc_notification_event fl,
        has_dcmd_notification_event fl, acs_notify fl, stringtable_work fl,
        symboltable_work fl, resolved_method_table_work fl,
        protection_domain_table_work fl])"

subsection \<open>What the collaborators answer\<close>

text \<open>
  The answers the collaborators would give to the worker's next call: the seven
  \<^verbatim>\<open>has_work\<close> predicates that are not the queue's, and whether the two calls made
  under \<^verbatim>\<open>CHECK\<close> leave a pending exception.
\<close>

record env =
  low_memory_pending :: bool
  gc_has_event :: bool
  dcmd_pending :: bool
  stringtable_has_work :: bool
  symboltable_has_work :: bool
  rmt_has_work :: bool
  pd_has_work :: bool
  gc_raises :: bool
  dcmd_raises :: bool

subsection \<open>The deferred event queue\<close>

text \<open>
  Modelled from the spec: \<^verbatim>\<open>JvmtiDeferredEventQueue\<close> (prims/jvmtiImpl) is not among
  the sources. The spec, section 4.1: \<^verbatim>\<open>enqueue\<close> appends to the tail and always
  succeeds; \<^verbatim>\<open>dequeue\<close> removes and returns the head and requires a non-empty queue;
  \<^verbatim>\<open>has_events\<close> is the emptiness check; the root visit calls the visitor on every
  queued event.
\<close>

definition queue_enqueue :: "'e \<Rightarrow> 'e list \<Rightarrow> 'e list" where
  "queue_enqueue e q = q @ [e]"

fun queue_dequeue :: "'e list \<Rightarrow> ('e \<times> 'e list) option" where
  "queue_dequeue [] = None"
| "queue_dequeue (e # q) = Some (e, q)"

definition has_events :: "'e list \<Rightarrow> bool" where
  "has_events q = (q \<noteq> [])"

definition queue_oops_do :: "'e list \<Rightarrow> 'e list" where
  "queue_oops_do q = q"

subsection \<open>The trace of calls\<close>

datatype 'e obs =
    EnterBlocked
  | LeaveBlocked
  | Lock
  | Unlock
  | Wait
  | Woken
  | NotifyAll
  | Poll source bool
  | QEnqueue 'e
  | QDequeue 'e
  | Post 'e
  | Perform source

text \<open>
  \<^verbatim>\<open>EnterBlocked\<close>/\<^verbatim>\<open>LeaveBlocked\<close>: the \<^verbatim>\<open>ThreadBlockInVM\<close> scope of the
  worker. \<^verbatim>\<open>Lock\<close>/\<^verbatim>\<open>Unlock\<close>: a \<^verbatim>\<open>MutexLockerEx\<close> scope on
  \<^verbatim>\<open>Service_lock\<close>. \<^verbatim>\<open>Wait\<close>: \<^verbatim>\<open>Service_lock->wait\<close> is entered and the lock
  given up; \<^verbatim>\<open>Woken\<close>: it returns with the lock held again. \<^verbatim>\<open>Poll x b\<close>: the
  predicate of \<open>x\<close> was called and answered \<open>b\<close>. \<^verbatim>\<open>Post e\<close>: \<^verbatim>\<open>post()\<close> on the
  in-flight event. \<^verbatim>\<open>Perform x\<close>: the work operation of \<open>x\<close> was called.
\<close>

subsection \<open>The wait condition\<close>

text \<open>The predicate each conjunct calls.\<close>

fun has_work :: "env \<Rightarrow> 'e list \<Rightarrow> source \<Rightarrow> bool" where
  "has_work ev q LowMemoryDetector = low_memory_pending ev"
| "has_work ev q JvmtiServiceQueue = has_events q"
| "has_work ev q GCNotifier = gc_has_event ev"
| "has_work ev q DCmdFactory = dcmd_pending ev"
| "has_work ev q StringTable = stringtable_has_work ev"
| "has_work ev q SymbolTable = symboltable_has_work ev"
| "has_work ev q ResolvedMethodTable = rmt_has_work ev"
| "has_work ev q ProtectionDomainTable = pd_has_work ev"

text \<open>The conjuncts of the \<^verbatim>\<open>while\<close> condition, left to right.\<close>

definition condition_order :: "source list" where
  "condition_order =
     [LowMemoryDetector, JvmtiServiceQueue, GCNotifier, DCmdFactory,
      StringTable, SymbolTable, ResolvedMethodTable, ProtectionDomainTable]"

text \<open>
  A chain \<^verbatim>\<open>!(f1 = p1()) && !(f2 = p2()) && ...\<close>: each conjunct calls its predicate,
  stores the answer in its flag and is true when the answer is false; \<^verbatim>\<open>&&\<close> stops at
  the first false conjunct. The result is the value of the chain (true: the loop body
  runs and the thread waits), the flags, and the polls made.
\<close>

fun conjuncts :: "source list \<Rightarrow> env \<Rightarrow> 'e list \<Rightarrow> flags \<Rightarrow> bool \<times> flags \<times> 'e obs list" where
  "conjuncts [] ev q fl = (True, fl, [])"
| "conjuncts (x # xs) ev q fl =
     (let b = has_work ev q x; fl' = assign x b fl in
      if b then (False, fl', [Poll x b])
      else (case conjuncts xs ev q fl' of
              (w, fl'', ps) \<Rightarrow> (w, fl'', Poll x b # ps)))"

definition wait_condition :: "env \<Rightarrow> 'e list \<Rightarrow> flags \<Rightarrow> bool \<times> flags \<times> 'e obs list" where
  "wait_condition ev q fl = conjuncts condition_order ev q fl"

subsection \<open>Threads and the state of the runtime\<close>

datatype priority = NearMaxPriority

record thread_oop =
  oop_name :: string
  oop_priority :: "priority option"
  oop_daemon :: bool

record java_thread =
  osthread :: "nat option"
  threadObj :: "thread_oop option"

text \<open>The statements of the loop body at which the worker can stand.\<close>

datatype pc =
    PC_top
  | PC_waiting
  | PC_stringtable
  | PC_symboltable
  | PC_post
  | PC_reset
  | PC_sensors
  | PC_gc
  | PC_dcmd
  | PC_rmt
  | PC_pd
  | PC_returned

text \<open>
  The statics of the class (\<^verbatim>\<open>_instance\<close>, \<^verbatim>\<open>_jvmti_event\<close>,
  \<^verbatim>\<open>_jvmti_service_queue\<close>), the thread inventory, and the worker's position and
  locals. \<^verbatim>\<open>_jvmti_event\<close> is null or points to the local \<^verbatim>\<open>jvmti_event\<close> of the
  running iteration: \<open>jvmti_event\<close> holds the event it points to.
\<close>

record 'e runtime =
  the_instance :: "java_thread option"
  threads_list :: "java_thread list"
  started :: "java_thread list"
  jvmti_service_queue :: "'e list"
  jvmti_event :: "'e option"
  pc :: pc
  fl :: flags
  trace :: "'e obs list"

datatype error =
    AssertionFailure string
  | VmExitDuringInitialization string string
  | PendingException
  | DequeueOnEmptyQueue
  | NullDereference

definition emit :: "'e obs list \<Rightarrow> 'e runtime \<Rightarrow> 'e runtime" where
  "emit os s = s\<lparr>trace := trace s @ os\<rparr>"

text \<open>The state before \<^verbatim>\<open>initialize\<close>: the statics as their initialisers leave them.\<close>

definition vm_start :: "'e runtime" where
  "vm_start =
     \<lparr> the_instance = None, threads_list = [], started = [],
       jvmti_service_queue = [], jvmti_event = None,
       pc = PC_top, fl = declared_flags, trace = [] \<rparr>"

subsection \<open>initialize\<close>

text \<open>
  What the calls of \<^verbatim>\<open>initialize\<close> into the rest of the runtime answer: whether
  \<^verbatim>\<open>create_from_str\<close> and \<^verbatim>\<open>construct_new_instance\<close> leave a pending exception,
  what \<^verbatim>\<open>new ServiceThread\<close> yields (null, or a thread whose \<^verbatim>\<open>osthread\<close> may be
  missing), and the text of \<^verbatim>\<open>os::native_thread_creation_failed_msg()\<close>.
\<close>

record init_env =
  create_from_str_raises :: bool
  construct_new_instance_raises :: bool
  new_ServiceThread :: "java_thread option"
  native_thread_creation_failed_msg :: string

text \<open>
  Modelled from the spec: \<^verbatim>\<open>vm_exit_during_initialization\<close> (runtime/java) is not
  among the sources. The spec, sections 4.2 and 7: the runtime aborts startup and reports
  the failure through its abort path; nothing is returned to the caller.
\<close>

definition vm_exit_during_initialization :: "string \<Rightarrow> string \<Rightarrow> error + 'a" where
  "vm_exit_during_initialization exception_name message =
     Inl (VmExitDuringInitialization exception_name message)"

text \<open>
  Modelled from the spec: \<^verbatim>\<open>Threads::add\<close> and \<^verbatim>\<open>Thread::start\<close> (runtime/thread)
  are not among the sources. The spec, section 4.2: the thread is registered with the
  runtime's thread inventory and started.
\<close>

definition Threads_add :: "java_thread \<Rightarrow> 'e runtime \<Rightarrow> 'e runtime" where
  "Threads_add t s = s\<lparr>threads_list := threads_list s @ [t]\<rparr>"

definition Thread_start :: "java_thread \<Rightarrow> 'e runtime \<Rightarrow> 'e runtime" where
  "Thread_start t s = s\<lparr>started := started s @ [t]\<rparr>"

definition initialize :: "init_env \<Rightarrow> 'e runtime \<Rightarrow> error + 'e runtime" where
  "initialize ie s =
     (if create_from_str_raises ie then Inl PendingException
      else if construct_new_instance_raises ie then Inl PendingException
      else
        (let thread_oop = \<lparr> oop_name = ''Service Thread'', oop_priority = None,
                             oop_daemon = False \<rparr> in
         case new_ServiceThread ie of
           None \<Rightarrow>
             vm_exit_during_initialization ''java.lang.OutOfMemoryError''
               (native_thread_creation_failed_msg ie)
         | Some thread \<Rightarrow>
             if osthread thread = None then
               vm_exit_during_initialization ''java.lang.OutOfMemoryError''
                 (native_thread_creation_failed_msg ie)
             else
               (let thread_oop = thread_oop\<lparr>oop_priority := Some NearMaxPriority\<rparr>;
                    thread_oop = thread_oop\<lparr>oop_daemon := True\<rparr>;
                    thread = thread\<lparr>threadObj := Some thread_oop\<rparr>;
                    s = s\<lparr>the_instance := Some thread\<rparr>;
                    s = Threads_add thread s;
                    s = Thread_start thread s
                in Inr s)))"

subsection \<open>enqueue_deferred_event\<close>

text \<open>
  The first argument says whether assertions are compiled in (a debug build). The lock is
  taken before the assertion is evaluated.
\<close>

definition enqueue_deferred_event :: "bool \<Rightarrow> 'e \<Rightarrow> 'e runtime \<Rightarrow> error + 'e runtime" where
  "enqueue_deferred_event debug event s =
     (let s = emit [Lock] s in
      if debug \<and> the_instance s = None then
        Inl (AssertionFailure ''cannot enqueue events before the service thread runs'')
      else
        (let s = emit [QEnqueue event]
                   (s\<lparr>jvmti_service_queue := queue_enqueue event (jvmti_service_queue s)\<rparr>);
             s = emit [NotifyAll] s
         in Inr (emit [Unlock] s)))"

subsection \<open>service_thread_entry\<close>

text \<open>
  One evaluation of the \<^verbatim>\<open>while\<close> condition with \<^verbatim>\<open>Service_lock\<close> held, and what
  follows it before the lock is given up: either the wait, or the end of the loop, the
  dequeue of the event when \<^verbatim>\<open>has_jvmti_events\<close> is set, and the end of the two scopes.
\<close>

definition wait_loop_pass :: "env \<Rightarrow> 'e runtime \<Rightarrow> error + 'e runtime" where
  "wait_loop_pass ev s =
     (case wait_condition ev (jvmti_service_queue s) (fl s) of
        (w, fl', polls) \<Rightarrow>
          (let s = emit polls (s\<lparr>fl := fl'\<rparr>) in
           if w then Inr ((emit [Wait] s)\<lparr>pc := PC_waiting\<rparr>)
           else if has_jvmti_events (fl s) then
             (case queue_dequeue (jvmti_service_queue s) of
                None \<Rightarrow> Inl DequeueOnEmptyQueue
              | Some (e, q) \<Rightarrow>
                  Inr ((emit [QDequeue e, Unlock, LeaveBlocked]
                         (s\<lparr>jvmti_service_queue := q, jvmti_event := Some e\<rparr>))
                       \<lparr>pc := PC_stringtable\<rparr>))
           else Inr ((emit [Unlock, LeaveBlocked] s)\<lparr>pc := PC_stringtable\<rparr>)))"

text \<open>An \<^verbatim>\<open>if (flag) { work(); }\<close> statement, then the next statement.\<close>

definition perform_if :: "bool \<Rightarrow> source \<Rightarrow> pc \<Rightarrow> 'e runtime \<Rightarrow> 'e runtime" where
  "perform_if b x next s = (if b then emit [Perform x] s else s)\<lparr>pc := next\<rparr>"

text \<open>
  The same for a call made under \<^verbatim>\<open>CHECK\<close>: with a pending exception after the
  call, \<^verbatim>\<open>service_thread_entry\<close> returns.
\<close>

definition perform_check :: "bool \<Rightarrow> bool \<Rightarrow> source \<Rightarrow> pc \<Rightarrow> 'e runtime \<Rightarrow> 'e runtime" where
  "perform_check b raises x next s =
     (if b then (emit [Perform x] s)\<lparr>pc := (if raises then PC_returned else next)\<rparr>
      else s\<lparr>pc := next\<rparr>)"

text \<open>
  One step of the worker. At the top of the loop body the flags are declared, the two
  scopes are entered and the condition is evaluated for the first time; a thread in the
  wait wakes up and evaluates it again; after the scopes, one statement at a time.
\<close>

definition worker_step :: "env \<Rightarrow> 'e runtime \<Rightarrow> error + 'e runtime" where
  "worker_step ev s =
     (case pc s of
        PC_top \<Rightarrow> wait_loop_pass ev (emit [EnterBlocked, Lock] (s\<lparr>fl := declared_flags\<rparr>))
      | PC_waiting \<Rightarrow> wait_loop_pass ev (emit [Woken] s)
      | PC_stringtable \<Rightarrow>
          Inr (perform_if (stringtable_work (fl s)) StringTable PC_symboltable s)
      | PC_symboltable \<Rightarrow>
          Inr (perform_if (symboltable_work (fl s)) SymbolTable PC_post s)
      | PC_post \<Rightarrow>
          if has_jvmti_events (fl s) then
            (case jvmti_event s of
               None \<Rightarrow> Inl NullDereference
             | Some e \<Rightarrow> Inr ((emit [Post e] s)\<lparr>pc := PC_reset\<rparr>))
          else Inr (s\<lparr>pc := PC_sensors\<rparr>)
      | PC_reset \<Rightarrow> Inr (s\<lparr>jvmti_event := None, pc := PC_sensors\<rparr>)
      | PC_sensors \<Rightarrow>
          Inr (perform_if (sensors_changed (fl s)) LowMemoryDetector PC_gc s)
      | PC_gc \<Rightarrow>
          Inr (perform_check (has_gc_notification_event (fl s)) (gc_raises ev)
                 GCNotifier PC_dcmd s)
      | PC_dcmd \<Rightarrow>
          Inr (perform_check (has_dcmd_notification_event (fl s)) (dcmd_raises ev)
                 DCmdFactory PC_rmt s)
      | PC_rmt \<Rightarrow>
          Inr (perform_if (resolved_method_table_work (fl s)) ResolvedMethodTable PC_pd s)
      | PC_pd \<Rightarrow>
          Inr (perform_if (protection_domain_table_work (fl s)) ProtectionDomainTable
                 PC_top s)
      | PC_returned \<Rightarrow> Inr s)"

subsection \<open>Executions\<close>

text \<open>
  The critical sections on \<^verbatim>\<open>Service_lock\<close> exclude one another, so an execution is a
  sequence of whole steps: a producer's call of \<^verbatim>\<open>enqueue_deferred_event\<close>, or a step
  of the worker. The entry function runs only once a thread has been started.
\<close>

datatype 'e action = Enqueue 'e | Worker env

definition step :: "bool \<Rightarrow> 'e action \<Rightarrow> 'e runtime \<Rightarrow> error + 'e runtime" where
  "step debug a s =
     (case a of
        Enqueue e \<Rightarrow> enqueue_deferred_event debug e s
      | Worker ev \<Rightarrow> if started s = [] then Inr s else worker_step ev s)"

fun exec :: "bool \<Rightarrow> 'e action list \<Rightarrow> 'e runtime \<Rightarrow> error + 'e runtime" where
  "exec debug [] s = Inr s"
| "exec debug (a # as) s =
     (case step debug a s of Inl err \<Rightarrow> Inl err | Inr s' \<Rightarrow> exec debug as s')"

text \<open>The events of the \<^verbatim>\<open>enqueue_deferred_event\<close> calls of an execution, in order.\<close>

fun enqueued :: "'e action list \<Rightarrow> 'e list" where
  "enqueued [] = []"
| "enqueued (Enqueue e # as) = e # enqueued as"
| "enqueued (Worker ev # as) = enqueued as"

text \<open>Projections of a trace.\<close>

fun enqs :: "'e obs list \<Rightarrow> 'e list" where
  "enqs [] = []"
| "enqs (QEnqueue e # t) = e # enqs t"
| "enqs (ob # t) = enqs t"

fun deqs :: "'e obs list \<Rightarrow> 'e list" where
  "deqs [] = []"
| "deqs (QDequeue e # t) = e # deqs t"
| "deqs (ob # t) = deqs t"

fun posts :: "'e obs list \<Rightarrow> 'e list" where
  "posts [] = []"
| "posts (Post e # t) = e # posts t"
| "posts (ob # t) = posts t"

text \<open>A state in which nothing has happened yet on the queue and in the worker.\<close>

definition idle :: "'e runtime \<Rightarrow> bool" where
  "idle s = (pc s = PC_top \<and> jvmti_event s = None \<and> jvmti_service_queue s = []
             \<and> trace s = [])"

subsection \<open>oops_do and nmethods_do\<close>

text \<open>
  The hook reads \<^verbatim>\<open>_jvmti_event\<close> first, without the lock, and scans the event it
  points to; then it takes \<^verbatim>\<open>Service_lock\<close> and scans the queue. Both happen only
  when the \<^verbatim>\<open>CodeBlobClosure\<close> is non-null (the first argument). The two parts give
  the events whose references are handed to the closures, in the order of the visits. The
  frames of the thread itself (\<^verbatim>\<open>JavaThread::oops_do\<close>) hold no deferred event.
\<close>

definition oops_do_in_flight :: "bool \<Rightarrow> 'e runtime \<Rightarrow> 'e list" where
  "oops_do_in_flight cf_given s =
     (if cf_given then (case jvmti_event s of None \<Rightarrow> [] | Some e \<Rightarrow> [e]) else [])"

definition oops_do_queue :: "bool \<Rightarrow> 'e runtime \<Rightarrow> 'e list" where
  "oops_do_queue cf_given s =
     (if cf_given then queue_oops_do (jvmti_service_queue s) else [])"


definition nmethods_do ::
  "bool \<Rightarrow> bool \<Rightarrow> 'e action list \<Rightarrow> 'e runtime \<Rightarrow> error + 'e list" where
  "nmethods_do cf_given debug between s =
     (let in_flight = oops_do_in_flight cf_given s in
      case exec debug between s of
        Inl err \<Rightarrow> Inl err
      | Inr s' \<Rightarrow> Inr (in_flight @ oops_do_queue cf_given s'))"

subsection \<open>Reading a trace\<close>

text \<open>The work operations called, in order; \<^verbatim>\<open>post()\<close> is the queue's.\<close>

fun works :: "'e obs list \<Rightarrow> source list" where
  "works [] = []"
| "works (Perform x # t) = x # works t"
| "works (Post e # t) = JvmtiServiceQueue # works t"
| "works (ob # t) = works t"

text \<open>
  The lock as the trace shows it (held or free), and \<open>None\<close> once a call on the lock or on
  the queue is made in the wrong state: taking a held lock, giving up a free one, or
  \<^verbatim>\<open>enqueue\<close>/\<^verbatim>\<open>dequeue\<close> while the lock is free.
\<close>

fun lock_step :: "'e obs \<Rightarrow> bool option \<Rightarrow> bool option" where
  "lock_step ob None = None"
| "lock_step Lock (Some held) = (if held then None else Some True)"
| "lock_step Woken (Some held) = (if held then None else Some True)"
| "lock_step Unlock (Some held) = (if held then Some False else None)"
| "lock_step Wait (Some held) = (if held then Some False else None)"
| "lock_step (QEnqueue e) (Some held) = (if held then Some held else None)"
| "lock_step (QDequeue e) (Some held) = (if held then Some held else None)"
| "lock_step ob (Some held) = Some held"

definition queue_ops_under_lock :: "'e obs list \<Rightarrow> bool" where
  "queue_ops_under_lock t = (fold lock_step t (Some False) \<noteq> None)"

text \<open>
  One iteration as the trace shows it: the sources whose predicate answered true in the
  evaluation of the condition that is under way or was the last (\<open>seen\<close>), the sources
  whose work operation was called since the iteration began (\<open>served\<close>), and whether the
  worker is still inside its \<^verbatim>\<open>ThreadBlockInVM\<close> scope (\<open>polling\<close>). \<open>None\<close> once a
  predicate is called outside the scope, or a work operation is called inside it, for a
  source not in \<open>seen\<close>, or for a source already in \<open>served\<close>.
\<close>

fun dispatch_step ::
  "'e obs \<Rightarrow> (source list \<times> source list \<times> bool) option
     \<Rightarrow> (source list \<times> source list \<times> bool) option" where
  "dispatch_step ob None = None"
| "dispatch_step EnterBlocked (Some (seen, served, polling)) = Some ([], [], True)"
| "dispatch_step Woken (Some (seen, served, polling)) = Some ([], served, polling)"
| "dispatch_step LeaveBlocked (Some (seen, served, polling)) = Some (seen, served, False)"
| "dispatch_step (Poll x b) (Some (seen, served, polling)) =
     (if polling then Some (if b then x # seen else seen, served, polling) else None)"
| "dispatch_step (Perform x) (Some (seen, served, polling)) =
     (if \<not> polling \<and> x \<in> set seen \<and> x \<notin> set served
      then Some (seen, x # served, polling) else None)"
| "dispatch_step (Post e) (Some (seen, served, polling)) =
     (if \<not> polling \<and> JvmtiServiceQueue \<in> set seen \<and> JvmtiServiceQueue \<notin> set served
      then Some (seen, JvmtiServiceQueue # served, polling) else None)"
| "dispatch_step ob (Some st) = Some st"

definition single_dispatch :: "'e obs list \<Rightarrow> bool" where
  "single_dispatch t = (fold dispatch_step t (Some ([], [], False)) \<noteq> None)"

text \<open>The work operations called since the running iteration began.\<close>

fun iteration_step :: "'e obs \<Rightarrow> source list \<Rightarrow> source list" where
  "iteration_step EnterBlocked acc = []"
| "iteration_step (Perform x) acc = acc @ [x]"
| "iteration_step (Post e) acc = acc @ [JvmtiServiceQueue]"
| "iteration_step ob acc = acc"

definition iteration_work :: "'e obs list \<Rightarrow> source list" where
  "iteration_work t = fold iteration_step t []"

subsection \<open>The dispatch phase\<close>

text \<open>The order in which the claim lists the work kinds of the dispatch phase.\<close>

definition priority_order :: "source list" where
  "priority_order =
     [StringTable, SymbolTable, JvmtiServiceQueue, LowMemoryDetector,
      GCNotifier, DCmdFactory, ResolvedMethodTable, ProtectionDomainTable]"

definition in_dispatch :: "pc \<Rightarrow> bool" where
  "in_dispatch p = (p \<noteq> PC_top \<and> p \<noteq> PC_waiting \<and> p \<noteq> PC_returned)"

text \<open>
  The worker's steps from the end of the critical section to the end of the loop body
  (or to the return of the entry function), one answer of the collaborators for each.
\<close>

fun run_dispatch :: "env list \<Rightarrow> 'e runtime \<Rightarrow> error + 'e runtime" where
  "run_dispatch [] s = Inr s"
| "run_dispatch (ev # evs) s =
     (if in_dispatch (pc s) then
        (case worker_step ev s of Inl err \<Rightarrow> Inl err | Inr s' \<Rightarrow> run_dispatch evs s')
      else Inr s)"

text \<open>The position of a work kind in \<open>priority_order\<close>.\<close>

fun rank :: "source \<Rightarrow> nat" where
  "rank StringTable = 0"
| "rank SymbolTable = 1"
| "rank JvmtiServiceQueue = 2"
| "rank LowMemoryDetector = 3"
| "rank GCNotifier = 4"
| "rank DCmdFactory = 5"
| "rank ResolvedMethodTable = 6"
| "rank ProtectionDomainTable = 7"

text \<open>How many of the work kinds of \<open>priority_order\<close> lie before a statement.\<close>

fun served_count :: "pc \<Rightarrow> nat" where
  "served_count PC_top = 0"
| "served_count PC_waiting = 0"
| "served_count PC_stringtable = 0"
| "served_count PC_symboltable = 1"
| "served_count PC_post = 2"
| "served_count PC_reset = 3"
| "served_count PC_sensors = 3"
| "served_count PC_gc = 4"
| "served_count PC_dcmd = 5"
| "served_count PC_rmt = 6"
| "served_count PC_pd = 7"
| "served_count PC_returned = 8"

text \<open>An upper bound of the steps from a statement to the end of the loop body.\<close>

fun steps_left :: "pc \<Rightarrow> nat" where
  "steps_left PC_stringtable = 9"
| "steps_left PC_symboltable = 8"
| "steps_left PC_post = 7"
| "steps_left PC_reset = 6"
| "steps_left PC_sensors = 5"
| "steps_left PC_gc = 4"
| "steps_left PC_dcmd = 3"
| "steps_left PC_rmt = 2"
| "steps_left PC_pd = 1"
| "steps_left p = 0"

subsection \<open>The wait condition, characterised\<close>

text \<open>The sources up to and including the first whose predicate answers true.\<close>

definition up_to_first_pending :: "env \<Rightarrow> 'e list \<Rightarrow> source list \<Rightarrow> source list" where
  "up_to_first_pending ev q xs =
     takeWhile (\<lambda>x. \<not> has_work ev q x) xs
     @ take 1 (dropWhile (\<lambda>x. \<not> has_work ev q x) xs)"

text \<open>The flags with exactly the flag of one source set.\<close>

definition only_flag :: "source \<Rightarrow> flags" where
  "only_flag x = assign x True declared_flags"

subsection \<open>Invariants of the executions\<close>

text \<open>The in-flight slot and the flags, by the position of the worker.\<close>

definition slot_ok :: "'e runtime \<Rightarrow> bool" where
  "slot_ok s =
     (case pc s of
        PC_top \<Rightarrow> jvmti_event s = None
      | PC_waiting \<Rightarrow> jvmti_event s = None \<and> fl s = declared_flags
      | PC_stringtable \<Rightarrow>
          fl s \<in> set (map only_flag condition_order)
          \<and> (has_jvmti_events (fl s) = (jvmti_event s \<noteq> None))
      | PC_symboltable \<Rightarrow>
          fl s \<in> set (map only_flag condition_order)
          \<and> (has_jvmti_events (fl s) = (jvmti_event s \<noteq> None))
      | PC_post \<Rightarrow>
          fl s \<in> set (map only_flag condition_order)
          \<and> (has_jvmti_events (fl s) = (jvmti_event s \<noteq> None))
      | PC_reset \<Rightarrow> fl s = only_flag JvmtiServiceQueue \<and> jvmti_event s \<noteq> None
      | PC_returned \<Rightarrow> jvmti_event s = None
      | _ \<Rightarrow> fl s \<in> set (map only_flag condition_order) \<and> jvmti_event s = None)"

text \<open>The event dequeued and not yet posted, and the event posted and still in the slot.\<close>

definition pending :: "'e runtime \<Rightarrow> 'e list" where
  "pending s =
     (if pc s = PC_stringtable \<or> pc s = PC_symboltable \<or> pc s = PC_post
      then (case jvmti_event s of None \<Rightarrow> [] | Some e \<Rightarrow> [e]) else [])"

definition awaiting_reset :: "'e runtime \<Rightarrow> 'e list" where
  "awaiting_reset s =
     (if pc s = PC_reset then (case jvmti_event s of None \<Rightarrow> [] | Some e \<Rightarrow> [e]) else [])"

definition fifo_ok :: "'e runtime \<Rightarrow> bool" where
  "fifo_ok s =
     (enqs (trace s) = deqs (trace s) @ jvmti_service_queue s
      \<and> deqs (trace s) = posts (trace s) @ pending s
      \<and> (awaiting_reset s = [] \<or>
           (posts (trace s) \<noteq> [] \<and> awaiting_reset s = [last (posts (trace s))])))"

text \<open>The polls of one evaluation of the wait condition in a state, and those answered true.\<close>

definition polls :: "env \<Rightarrow> 'e runtime \<Rightarrow> 'e obs list" where
  "polls ev s =
     map (\<lambda>x. Poll x (has_work ev (jvmti_service_queue s) x))
       (up_to_first_pending ev (jvmti_service_queue s) condition_order)"

definition polled_true :: "env \<Rightarrow> 'e runtime \<Rightarrow> source list" where
  "polled_true ev s =
     filter (has_work ev (jvmti_service_queue s))
       (up_to_first_pending ev (jvmti_service_queue s) condition_order)"

text \<open>Between two steps the lock is free and was never misused.\<close>

definition lock_free :: "'e runtime \<Rightarrow> bool" where
  "lock_free s = (fold lock_step (trace s) (Some False) = Some False)"

text \<open>The reading of the trace by \<open>dispatch_step\<close>, by the position of the worker.\<close>

definition disp_ok :: "'e runtime \<Rightarrow> bool" where
  "disp_ok s =
     (case fold dispatch_step (trace s) (Some ([], [], False)) of
        None \<Rightarrow> False
      | Some (seen, served, polling) \<Rightarrow>
          (case pc s of
             PC_top \<Rightarrow> True
           | PC_returned \<Rightarrow> True
           | PC_waiting \<Rightarrow> polling \<and> served = []
           | _ \<Rightarrow> \<not> polling \<and> set seen = {x. flag_of (fl s) x}
                  \<and> (\<forall>y\<in>set served. rank y < served_count (pc s))))"

text \<open>The work of the running iteration, by the position of the worker.\<close>

definition iter_ok :: "'e runtime \<Rightarrow> bool" where
  "iter_ok s =
     (case pc s of
        PC_top \<Rightarrow>
          (EnterBlocked \<notin> set (trace s) \<and> iteration_work (trace s) = [])
          \<or> (fl s \<in> set (map only_flag condition_order)
              \<and> iteration_work (trace s) = filter (flag_of (fl s)) priority_order)
      | PC_waiting \<Rightarrow> iteration_work (trace s) = []
      | PC_returned \<Rightarrow> length (iteration_work (trace s)) = 1
      | _ \<Rightarrow> iteration_work (trace s)
               = filter (\<lambda>y. flag_of (fl s) y \<and> rank y < served_count (pc s))
                   priority_order)"

subsection \<open>Example values\<close>

definition example_thread :: java_thread where
  "example_thread = \<lparr> osthread = Some 1, threadObj = None \<rparr>"

text \<open>A thread as \<^verbatim>\<open>initialize\<close> completes it.\<close>

definition service_thread :: "java_thread \<Rightarrow> java_thread" where
  "service_thread t =
     t\<lparr>threadObj := Some \<lparr> oop_name = ''Service Thread'',
                              oop_priority = Some NearMaxPriority, oop_daemon = True \<rparr>\<rparr>"

definition started_thread :: java_thread where
  "started_thread =
     \<lparr> osthread = Some 1,
       threadObj = Some \<lparr> oop_name = ''Service Thread'',
                          oop_priority = Some NearMaxPriority, oop_daemon = True \<rparr> \<rparr>"

definition init_ok :: init_env where
  "init_ok = \<lparr> create_from_str_raises = False, construct_new_instance_raises = False,
               new_ServiceThread = Some example_thread,
               native_thread_creation_failed_msg = ''unable to create native thread'' \<rparr>"

definition init_no_thread :: init_env where
  "init_no_thread = init_ok\<lparr>new_ServiceThread := None\<rparr>"

definition booted :: "nat runtime" where
  "booted = vm_start\<lparr> the_instance := Some started_thread,
                      threads_list := [started_thread], started := [started_thread] \<rparr>"

definition quiet :: env where
  "quiet = \<lparr> low_memory_pending = False, gc_has_event = False, dcmd_pending = False,
             stringtable_has_work = False, symboltable_has_work = False,
             rmt_has_work = False, pd_has_work = False,
             gc_raises = False, dcmd_raises = False \<rparr>"

text \<open>
  Two events are enqueued; the worker dequeues the first and posts it.
\<close>

definition example_run :: "nat action list" where
  "example_run =
     [Enqueue 1, Enqueue 2, Worker quiet, Worker quiet, Worker quiet, Worker quiet]"

text \<open>
  The work kinds of \<open>priority_order\<close> from a statement of the dispatch phase on.
\<close>

definition todo :: "pc \<Rightarrow> source list" where
  "todo p = (if in_dispatch p then drop (served_count p) priority_order else [])"

text \<open>
  Before the \<^verbatim>\<open>post()\<close>, a set \<^verbatim>\<open>has_jvmti_events\<close> comes with an event in the slot.
\<close>

definition slot_ready :: "'e runtime \<Rightarrow> bool" where
  "slot_ready s =
     (pc s = PC_stringtable \<or> pc s = PC_symboltable \<or> pc s = PC_post
        \<longrightarrow> has_jvmti_events (fl s) \<longrightarrow> jvmti_event s \<noteq> None)"

text \<open>
  Flags with five work kinds set, and a state at the first statement of the dispatch phase.
\<close>

definition several_flags :: flags where
  "several_flags =
     declared_flags\<lparr> sensors_changed := True, has_jvmti_events := True,
                     has_gc_notification_event := True, stringtable_work := True,
                     protection_domain_table_work := True \<rparr>"

definition dispatch_start :: "nat runtime" where
  "dispatch_start = booted\<lparr> jvmti_event := Some 3, pc := PC_stringtable, fl := several_flags \<rparr>"

text \<open>
  Answers of the collaborators under which the queue is served next: the low-memory
  detector, the one conjunct before the queue in the wait condition, has nothing pending,
  and neither notification call leaves a pending exception.
\<close>

definition queue_first :: "env \<Rightarrow> bool" where
  "queue_first ev = (\<not> low_memory_pending ev \<and> \<not> gc_raises ev \<and> \<not> dcmd_raises ev)"

text \<open>
  A number of worker steps that suffices to post every queued event: ten for each event in
  the queue, and what is left of the running iteration.
\<close>

definition drain_bound :: "'e runtime \<Rightarrow> nat" where
  "drain_bound s = 10 * length (jvmti_service_queue s) + steps_left (pc s)"

text \<open>
  The queue is empty and no event is dequeued and not yet posted.
\<close>

definition drained :: "'e runtime \<Rightarrow> bool" where
  "drained s = (jvmti_service_queue s = [] \<and> pending s = [])"

text \<open>
  Example runs of producers and of a root scan.
\<close>

definition two_events :: "nat action list" where
  "two_events = [Enqueue 1, Enqueue 2]"

definition twin_events :: "nat action list" where
  "twin_events = [Enqueue 4, Enqueue 4, Enqueue 9]"




definition busy :: env where
  "busy = quiet\<lparr> low_memory_pending := True, stringtable_has_work := True \<rparr>"

text \<open>
  One whole iteration with the low-memory detector and the string table both pending.
\<close>

definition iteration_run :: "nat action list" where
  "iteration_run =
     [Worker busy, Worker busy, Worker busy, Worker busy, Worker busy, Worker busy,
      Worker busy, Worker busy, Worker busy]"

section \<open>Properties\<close>

subsection \<open>The wait condition\<close>

lemma flag_of_assign: "flag_of (assign x b g) y = (if y = x then b else flag_of g y)"
  by (cases x; cases y; simp)

lemma acs_notify_assign: "acs_notify (assign x b g) = acs_notify g"
  by (cases x; simp)

lemma assign_False_declared: "assign x False declared_flags = declared_flags"
  by (cases x; simp add: declared_flags_def)

lemma conjuncts_polls:
  "conjuncts xs ev q g = (w, g', ps) \<Longrightarrow>
     ps = map (\<lambda>x. Poll x (has_work ev q x)) (up_to_first_pending ev q xs)"
proof (induction xs arbitrary: g w g' ps)
  case Nil
  then show ?case by (simp add: up_to_first_pending_def)
next
  case (Cons x xs)
  show ?case
  proof (cases "has_work ev q x")
    case True
    with Cons.prems show ?thesis by (simp add: up_to_first_pending_def)
  next
    case False
    obtain w1 f1 p1 where r: "conjuncts xs ev q (assign x False g) = (w1, f1, p1)"
      by (cases "conjuncts xs ev q (assign x False g)") auto
    from Cons.IH [OF r] r False Cons.prems show ?thesis
      by (simp add: up_to_first_pending_def)
  qed
qed

lemma conjuncts_value:
  "conjuncts xs ev q g = (w, g', ps) \<Longrightarrow> w = (\<forall>x\<in>set xs. \<not> has_work ev q x)"
proof (induction xs arbitrary: g w g' ps)
  case Nil
  then show ?case by simp
next
  case (Cons x xs)
  show ?case
  proof (cases "has_work ev q x")
    case True
    with Cons.prems show ?thesis by auto
  next
    case False
    obtain w1 f1 p1 where r: "conjuncts xs ev q (assign x False g) = (w1, f1, p1)"
      by (cases "conjuncts xs ev q (assign x False g)") auto
    from Cons.IH [OF r] r False Cons.prems show ?thesis by simp
  qed
qed

lemma conjuncts_flags:
  "conjuncts xs ev q g = (w, g', ps) \<Longrightarrow>
     flag_of g' y =
       (if y \<in> set (up_to_first_pending ev q xs) then has_work ev q y else flag_of g y)"
proof (induction xs arbitrary: g w g' ps)
  case Nil
  then show ?case by (simp add: up_to_first_pending_def)
next
  case (Cons x xs)
  show ?case
  proof (cases "has_work ev q x")
    case True
    with Cons.prems show ?thesis
      by (auto simp add: up_to_first_pending_def flag_of_assign)
  next
    case False
    obtain w1 f1 p1 where r: "conjuncts xs ev q (assign x False g) = (w1, f1, p1)"
      by (cases "conjuncts xs ev q (assign x False g)") auto
    from Cons.IH [OF r] r False Cons.prems show ?thesis
      by (auto simp add: up_to_first_pending_def flag_of_assign)
  qed
qed

lemma conjuncts_acs_notify:
  "conjuncts xs ev q g = (w, g', ps) \<Longrightarrow> acs_notify g' = acs_notify g"
proof (induction xs arbitrary: g w g' ps)
  case Nil
  then show ?case by simp
next
  case (Cons x xs)
  show ?case
  proof (cases "has_work ev q x")
    case True
    with Cons.prems show ?thesis by (auto simp add: acs_notify_assign)
  next
    case False
    obtain w1 f1 p1 where r: "conjuncts xs ev q (assign x False g) = (w1, f1, p1)"
      by (cases "conjuncts xs ev q (assign x False g)") auto
    from Cons.IH [OF r] r False Cons.prems show ?thesis
      by (simp add: acs_notify_assign)
  qed
qed

lemma conjuncts_declared:
  "conjuncts xs ev q declared_flags = (w, g', ps) \<Longrightarrow>
     (if w then g' = declared_flags
      else \<exists>x\<in>set xs. has_work ev q x \<and> g' = only_flag x)"
proof (induction xs arbitrary: w g' ps)
  case Nil
  then show ?case by simp
next
  case (Cons x xs)
  show ?case
  proof (cases "has_work ev q x")
    case True
    with Cons.prems show ?thesis by (auto simp add: only_flag_def)
  next
    case False
    obtain w1 f1 p1 where r: "conjuncts xs ev q declared_flags = (w1, f1, p1)"
      by (cases "conjuncts xs ev q declared_flags :: bool \<times> flags \<times> 'a obs list") auto
    from Cons.IH [OF r] r False Cons.prems show ?thesis
      by (auto simp add: assign_False_declared split: if_splits)
  qed
qed

lemma all_sources: "x \<in> set condition_order"
  by (cases x; simp add: condition_order_def)

lemma up_to_first_pending_all:
  "\<forall>x\<in>set xs. \<not> has_work ev q x \<Longrightarrow> up_to_first_pending ev q xs = xs"
  by (induction xs) (simp_all add: up_to_first_pending_def)

text \<open>
  C4, as amended: one evaluation of the wait condition polls the predicates in the order
  of the conjuncts, up to and including the first that answers true, and no further. The
  chain is true (the thread waits) exactly when no source has work, and then all eight
  predicates were polled. The flag of a polled source holds its answer; the flag of a
  source that was not polled, and \<^verbatim>\<open>acs_notify\<close>, keep their values.
\<close>

theorem wait_condition_short_circuit:
  assumes "wait_condition ev q g = (w, g', ps)"
  shows "ps = map (\<lambda>x. Poll x (has_work ev q x)) (up_to_first_pending ev q condition_order)
       \<and> w = (\<forall>x. \<not> has_work ev q x)
       \<and> (w \<longrightarrow> up_to_first_pending ev q condition_order = condition_order)
       \<and> (\<forall>x. flag_of g' x =
              (if x \<in> set (up_to_first_pending ev q condition_order)
               then has_work ev q x else flag_of g x))
       \<and> acs_notify g' = acs_notify g"
proof -
  from assms have c: "conjuncts condition_order ev q g = (w, g', ps)"
    by (simp add: wait_condition_def)
  have v: "w = (\<forall>x. \<not> has_work ev q x)"
    using conjuncts_value [OF c] all_sources by blast
  then have "w \<longrightarrow> up_to_first_pending ev q condition_order = condition_order"
    by (simp add: up_to_first_pending_all)
  with v conjuncts_polls [OF c] conjuncts_flags [OF c] conjuncts_acs_notify [OF c]
  show ?thesis by blast
qed

text \<open>
  C4 as stated fails: with the low-memory detector and the string table both pending, the
  evaluation polls the detector only, and the flag of the string table stays false.
\<close>

theorem wait_condition_full_snapshot_counterexample:
  "wait_condition busy ([] :: nat list) declared_flags =
     (False, declared_flags\<lparr>sensors_changed := True\<rparr>, [Poll LowMemoryDetector True])
   \<and> has_work busy ([] :: nat list) StringTable
   \<and> \<not> stringtable_work (declared_flags\<lparr>sensors_changed := True\<rparr>)"
  by (simp add: wait_condition_def condition_order_def busy_def quiet_def declared_flags_def)

theorem wait_condition_short_circuit_witness:
  "wait_condition busy ([] :: nat list) declared_flags =
     (False, declared_flags\<lparr>sensors_changed := True\<rparr>, [Poll LowMemoryDetector True])
   \<and> up_to_first_pending busy ([] :: nat list) condition_order = [LowMemoryDetector]
   \<and> [Poll LowMemoryDetector True :: nat obs] =
       map (\<lambda>x. Poll x (has_work busy ([] :: nat list) x)) [LowMemoryDetector]
   \<and> flag_of (declared_flags\<lparr>sensors_changed := True\<rparr>) StringTable
       = flag_of declared_flags StringTable"
proof -
  have a: "wait_condition busy ([] :: nat list) declared_flags =
     (False, declared_flags\<lparr>sensors_changed := True\<rparr>, [Poll LowMemoryDetector True])"
    by (simp add: wait_condition_def condition_order_def busy_def quiet_def declared_flags_def)
  have b: "up_to_first_pending busy ([] :: nat list) condition_order = [LowMemoryDetector]"
    by (simp add: up_to_first_pending_def condition_order_def busy_def quiet_def)
  from wait_condition_short_circuit [OF a] a b show ?thesis by simp
qed

subsection \<open>initialize and enqueue_deferred_event\<close>

lemma initialize_booted: "initialize init_ok (vm_start :: nat runtime) = Inr booted"
  by (simp add: initialize_def init_ok_def vm_start_def booted_def example_thread_def
      started_thread_def Threads_add_def Thread_start_def Let_def)

text \<open>
  C7: with assertions compiled in, \<^verbatim>\<open>enqueue_deferred_event\<close> called while
  \<^verbatim>\<open>_instance\<close> is null fails the assertion; once \<^verbatim>\<open>_instance\<close> is set it
  succeeds in every build: under the lock the event is appended to the queue and
  \<^verbatim>\<open>notify_all\<close> is called.
\<close>

theorem enqueue_deferred_event_contract:
  "(the_instance s = None \<longrightarrow>
      enqueue_deferred_event True e s =
        Inl (AssertionFailure ''cannot enqueue events before the service thread runs''))
   \<and> (the_instance s \<noteq> None \<longrightarrow>
      enqueue_deferred_event debug e s =
        Inr (s\<lparr> jvmti_service_queue := jvmti_service_queue s @ [e],
                trace := trace s @ [Lock, QEnqueue e, NotifyAll, Unlock] \<rparr>))"
  by (auto simp add: enqueue_deferred_event_def emit_def queue_enqueue_def Let_def)

theorem enqueue_deferred_event_contract_witness:
  "the_instance (vm_start :: nat runtime) = None
   \<and> enqueue_deferred_event True (7::nat) vm_start =
        Inl (AssertionFailure ''cannot enqueue events before the service thread runs'')
   \<and> the_instance booted \<noteq> None
   \<and> enqueue_deferred_event True (7::nat) booted =
        Inr (booted\<lparr> jvmti_service_queue := [7],
                     trace := [Lock, QEnqueue 7, NotifyAll, Unlock] \<rparr>)"
proof -
  have a: "the_instance (vm_start :: nat runtime) = None" by (simp add: vm_start_def)
  have b: "the_instance booted \<noteq> None" by (simp add: booted_def)
  have c: "jvmti_service_queue booted = []" "trace booted = []"
    by (simp_all add: booted_def vm_start_def)
  from enqueue_deferred_event_contract [of "vm_start :: nat runtime" 7 True] a
  have 1: "enqueue_deferred_event True (7::nat) vm_start =
        Inl (AssertionFailure ''cannot enqueue events before the service thread runs'')"
    by simp
  from enqueue_deferred_event_contract [of booted 7 True] b c
  have 2: "enqueue_deferred_event True (7::nat) booted =
        Inr (booted\<lparr> jvmti_service_queue := [7],
                     trace := [Lock, QEnqueue 7, NotifyAll, Unlock] \<rparr>)"
    by simp
  from a b 1 2 show ?thesis by simp
qed

text \<open>
  C8: when \<^verbatim>\<open>new ServiceThread\<close> yields null or a thread without an
  \<^verbatim>\<open>osthread\<close>, \<^verbatim>\<open>initialize\<close> returns no state: having reached the creation it
  ends in \<^verbatim>\<open>vm_exit_during_initialization\<close> with
  \<^verbatim>\<open>java.lang.OutOfMemoryError\<close> and the message of the failed thread creation.
\<close>

theorem initialize_thread_creation_failure:
  assumes "new_ServiceThread ie = None
           \<or> (\<exists>t. new_ServiceThread ie = Some t \<and> osthread t = None)"
  shows "(\<forall>s'. initialize ie s \<noteq> Inr s')
         \<and> (\<not> create_from_str_raises ie \<and> \<not> construct_new_instance_raises ie \<longrightarrow>
              initialize ie s =
                Inl (VmExitDuringInitialization ''java.lang.OutOfMemoryError''
                       (native_thread_creation_failed_msg ie)))"
  using assms
  by (auto simp add: initialize_def vm_exit_during_initialization_def Let_def)

theorem initialize_thread_creation_failure_witness:
  "new_ServiceThread init_no_thread = None
   \<and> initialize init_no_thread (vm_start :: nat runtime) =
       Inl (VmExitDuringInitialization ''java.lang.OutOfMemoryError''
              ''unable to create native thread'')"
proof -
  have a: "new_ServiceThread init_no_thread = None"
    by (simp add: init_no_thread_def)
  have b: "\<not> create_from_str_raises init_no_thread"
    "\<not> construct_new_instance_raises init_no_thread"
    "native_thread_creation_failed_msg init_no_thread = ''unable to create native thread''"
    by (simp_all add: init_no_thread_def init_ok_def)
  from initialize_thread_creation_failure [of init_no_thread "vm_start :: nat runtime"] a b
  show ?thesis by simp
qed

text \<open>
  C9 as stated fails: a second \<^verbatim>\<open>initialize\<close> after a completed first one returns
  normally, with two threads registered and started.
\<close>

theorem initialize_twice_counterexample:
  "initialize init_ok (vm_start :: nat runtime) = Inr booted
   \<and> the_instance booted = Some started_thread
   \<and> initialize init_ok booted =
       Inr (booted\<lparr> threads_list := [started_thread, started_thread],
                    started := [started_thread, started_thread] \<rparr>)"
  by (simp add: initialize_def init_ok_def vm_start_def booted_def example_thread_def
      started_thread_def Threads_add_def Thread_start_def Let_def)

text \<open>
  C9, as amended: \<^verbatim>\<open>initialize\<close> does not look at \<^verbatim>\<open>_instance\<close>. In every
  state, also one in which the singleton is already installed, a call whose thread
  creation succeeds returns normally: it registers and starts the new thread and points
  \<^verbatim>\<open>_instance\<close> to it.
\<close>

theorem initialize_has_no_singleton_check:
  assumes "\<not> create_from_str_raises ie" "\<not> construct_new_instance_raises ie"
    "new_ServiceThread ie = Some t" "osthread t \<noteq> None"
  shows "initialize ie s =
           Inr (s\<lparr> the_instance := Some (service_thread t),
                   threads_list := threads_list s @ [service_thread t],
                   started := started s @ [service_thread t] \<rparr>)"
  using assms
  by (auto simp add: initialize_def Let_def Threads_add_def Thread_start_def
      service_thread_def)

theorem initialize_has_no_singleton_check_witness:
  "\<not> create_from_str_raises init_ok \<and> \<not> construct_new_instance_raises init_ok
   \<and> new_ServiceThread init_ok = Some example_thread \<and> osthread example_thread \<noteq> None
   \<and> the_instance booted = Some started_thread
   \<and> initialize init_ok booted =
       Inr (booted\<lparr> the_instance := Some started_thread,
                    threads_list := [started_thread, started_thread],
                    started := [started_thread, started_thread] \<rparr>)"
proof -
  have a: "\<not> create_from_str_raises init_ok" "\<not> construct_new_instance_raises init_ok"
    "new_ServiceThread init_ok = Some example_thread" "osthread example_thread \<noteq> None"
    by (simp_all add: init_ok_def example_thread_def)
  have b: "service_thread example_thread = started_thread"
    by (simp add: service_thread_def example_thread_def started_thread_def)
  have c: "the_instance booted = Some started_thread"
    "threads_list booted = [started_thread]" "started booted = [started_thread]"
    by (simp_all add: booted_def)
  from initialize_has_no_singleton_check [OF a, of booted] a b c
  show ?thesis by simp
qed

subsection \<open>Steps and invariants\<close>

subsection \<open>Projections of traces\<close>

lemma enqs_append: "enqs (t @ u) = enqs t @ enqs u"
  by (induction t rule: enqs.induct) simp_all

lemma deqs_append: "deqs (t @ u) = deqs t @ deqs u"
  by (induction t rule: deqs.induct) simp_all

lemma posts_append: "posts (t @ u) = posts t @ posts u"
  by (induction t rule: posts.induct) simp_all

lemma works_append: "works (t @ u) = works t @ works u"
  by (induction t rule: works.induct) simp_all

lemma polls_project:
  "enqs (map (\<lambda>x. Poll x (f x)) xs) = []"
  "deqs (map (\<lambda>x. Poll x (f x)) xs) = []"
  "posts (map (\<lambda>x. Poll x (f x)) xs) = []"
  "works (map (\<lambda>x. Poll x (f x)) xs) = []"
  by (induction xs) simp_all

subsection \<open>The first pending source\<close>

lemma filter_up_to_first_pending:
  "filter (has_work ev q) (up_to_first_pending ev q xs)
     = take 1 (dropWhile (\<lambda>x. \<not> has_work ev q x) xs)"
proof -
  have "filter (has_work ev q) (takeWhile (\<lambda>x. \<not> has_work ev q x) xs) = []"
    by (induction xs) simp_all
  moreover have "filter (has_work ev q) (take 1 (dropWhile (\<lambda>x. \<not> has_work ev q x) xs))
      = take 1 (dropWhile (\<lambda>x. \<not> has_work ev q x) xs)"
    by (induction xs) simp_all
  ultimately show ?thesis by (simp add: up_to_first_pending_def)
qed

lemma conjuncts_first_pending:
  "conjuncts xs ev q declared_flags = (w, g', ps) \<Longrightarrow>
     (if w then g' = declared_flags \<and> filter (has_work ev q) (up_to_first_pending ev q xs) = []
      else \<exists>x. has_work ev q x \<and> g' = only_flag x
             \<and> filter (has_work ev q) (up_to_first_pending ev q xs) = [x])"
proof (induction xs arbitrary: w g' ps)
  case Nil
  then show ?case by (simp add: up_to_first_pending_def)
next
  case (Cons x xs)
  show ?case
  proof (cases "has_work ev q x")
    case True
    with Cons.prems show ?thesis by (auto simp add: only_flag_def up_to_first_pending_def)
  next
    case False
    obtain w1 f1 p1 where r: "conjuncts xs ev q declared_flags = (w1, f1, p1)"
      by (cases "conjuncts xs ev q declared_flags :: bool \<times> flags \<times> 'a obs list") auto
    from Cons.IH [OF r] r False Cons.prems show ?thesis
      by (auto simp add: assign_False_declared up_to_first_pending_def split: if_splits)
  qed
qed

lemma has_jvmti_events_only_flag:
  "has_jvmti_events (only_flag x) = (x = JvmtiServiceQueue)"
  by (cases x; simp add: only_flag_def declared_flags_def)

lemma flag_of_only_flag: "flag_of (only_flag x) y = (y = x)"
  by (cases x; cases y; simp add: only_flag_def declared_flags_def)

lemma flag_of_declared: "flag_of declared_flags y = False"
  by (cases y; simp add: declared_flags_def)

lemma only_flag_in_range: "only_flag x \<in> set (map only_flag condition_order)"
  using all_sources by simp

lemma wait_loop_pass_result:
  assumes d: "fl s = declared_flags"
  obtains
    (wait) "wait_loop_pass ev s = Inr (s\<lparr>trace := trace s @ polls ev s @ [Wait], pc := PC_waiting\<rparr>)"
       "polled_true ev s = []"
  | (event) e q where "jvmti_service_queue s = e # q"
       "wait_loop_pass ev s =
          Inr (s\<lparr>fl := only_flag JvmtiServiceQueue, jvmti_service_queue := q,
                  jvmti_event := Some e,
                  trace := trace s @ polls ev s @ [QDequeue e, Unlock, LeaveBlocked],
                  pc := PC_stringtable\<rparr>)"
       "polled_true ev s = [JvmtiServiceQueue]"
  | (other) x where "x \<noteq> JvmtiServiceQueue"
       "wait_loop_pass ev s =
          Inr (s\<lparr>fl := only_flag x,
                  trace := trace s @ polls ev s @ [Unlock, LeaveBlocked],
                  pc := PC_stringtable\<rparr>)"
       "polled_true ev s = [x]"
proof -
  obtain w g' ps where c: "conjuncts condition_order ev (jvmti_service_queue s) declared_flags = (w, g', ps)"
    by (cases "conjuncts condition_order ev (jvmti_service_queue s) declared_flags") auto
  have ps: "ps = polls ev s" using conjuncts_polls [OF c] by (simp add: polls_def)
  show thesis
  proof (cases w)
    case True
    with conjuncts_first_pending [OF c] have "g' = declared_flags" "polled_true ev s = []"
      by (simp_all add: polled_true_def)
    with True c ps d wait [unfolded polls_def polled_true_def] show thesis
      by (simp add: wait_loop_pass_def wait_condition_def emit_def polls_def polled_true_def)
  next
    case False
    with conjuncts_first_pending [OF c] obtain x where
      x: "has_work ev (jvmti_service_queue s) x" "g' = only_flag x" "polled_true ev s = [x]"
      by (auto simp add: polled_true_def)
    show thesis
    proof (cases "x = JvmtiServiceQueue")
      case True
      with x have "jvmti_service_queue s \<noteq> []" by (simp add: has_events_def)
      then obtain e q where q: "jvmti_service_queue s = e # q"
        by (cases "jvmti_service_queue s") auto
      have "wait_loop_pass ev s =
          Inr (s\<lparr>fl := only_flag JvmtiServiceQueue, jvmti_service_queue := q,
                  jvmti_event := Some e,
                  trace := trace s @ polls ev s @ [QDequeue e, Unlock, LeaveBlocked],
                  pc := PC_stringtable\<rparr>)"
        using False c ps d x True q
        by (simp add: wait_loop_pass_def wait_condition_def emit_def has_jvmti_events_only_flag)
      with q x True event show thesis by simp
    next
      case xn: False
      have "wait_loop_pass ev s =
          Inr (s\<lparr>fl := only_flag x,
                  trace := trace s @ polls ev s @ [Unlock, LeaveBlocked],
                  pc := PC_stringtable\<rparr>)"
        using False c ps d x xn
        by (simp add: wait_loop_pass_def wait_condition_def emit_def has_jvmti_events_only_flag)
      with xn x other show thesis by simp
    qed
  qed
qed

subsection \<open>Checkers over the polls\<close>

lemma lock_step_polls: "fold lock_step (map (\<lambda>x. Poll x (f x)) xs) st = st"
proof (induction xs arbitrary: st)
  case Nil
  then show ?case by simp
next
  case (Cons x xs)
  then show ?case by (cases st) simp_all
qed

lemma iteration_step_polls: "fold iteration_step (map (\<lambda>x. Poll x (f x)) xs) acc = acc"
  by (induction xs arbitrary: acc) simp_all

lemma dispatch_step_polls:
  "fold dispatch_step (map (\<lambda>x. Poll x (f x)) xs) (Some (seen, served, True))
     = Some (rev (filter f xs) @ seen, served, True)"
  by (induction xs arbitrary: seen) simp_all

lemma polls_checked [simp]:
  "fold lock_step (polls ev s) st = st"
  "fold iteration_step (polls ev s) acc = acc"
  "fold dispatch_step (polls ev s) (Some (seen, served, True))
     = Some (rev (polled_true ev s) @ seen, served, True)"
  "enqs (polls ev s) = []" "deqs (polls ev s) = []" "posts (polls ev s) = []"
  "works (polls ev s) = []"
  "EnterBlocked \<notin> set (polls ev s)"
  by (auto simp add: polls_def polled_true_def lock_step_polls iteration_step_polls
      dispatch_step_polls polls_project)

lemma polls_cong [simp]:
  "polls ev (s\<lparr>trace := t\<rparr>) = polls ev s"
  "polls ev (s\<lparr>fl := g\<rparr>) = polls ev s"
  "polled_true ev (s\<lparr>trace := t\<rparr>) = polled_true ev s"
  "polled_true ev (s\<lparr>fl := g\<rparr>) = polled_true ev s"
  by (simp_all add: polls_def polled_true_def)

subsection \<open>The steps of the worker\<close>

lemma worker_step_top:
  "pc s = PC_top \<Longrightarrow>
     worker_step ev s =
       wait_loop_pass ev (s\<lparr>fl := declared_flags, trace := trace s @ [EnterBlocked, Lock]\<rparr>)"
  by (simp add: worker_step_def emit_def)

lemma worker_step_waiting:
  "pc s = PC_waiting \<Longrightarrow>
     worker_step ev s = wait_loop_pass ev (s\<lparr>trace := trace s @ [Woken]\<rparr>)"
  by (simp add: worker_step_def emit_def)

lemmas dispatch_defs = worker_step_def perform_if_def perform_check_def emit_def

lemma slot_ok_worker:
  assumes "slot_ok s"
  shows "\<exists>s'. worker_step ev s = Inr s' \<and> slot_ok s'"
proof (cases "pc s")
  case PC_top
  let ?s1 = "s\<lparr>fl := declared_flags, trace := trace s @ [EnterBlocked, Lock]\<rparr>"
  have d: "fl ?s1 = declared_flags" by simp
  from assms PC_top have n: "jvmti_event s = None" by (simp add: slot_ok_def)
  show ?thesis
    by (rule wait_loop_pass_result [OF d, of ev])
      (simp_all add: worker_step_top [OF PC_top] slot_ok_def n PC_top
        has_jvmti_events_only_flag all_sources)
next
  case PC_waiting
  let ?s1 = "s\<lparr>trace := trace s @ [Woken]\<rparr>"
  from assms PC_waiting have n: "jvmti_event s = None" "fl s = declared_flags"
    by (simp_all add: slot_ok_def)
  then have d: "fl ?s1 = declared_flags" by simp
  show ?thesis
    by (rule wait_loop_pass_result [OF d, of ev])
      (simp_all add: worker_step_waiting [OF PC_waiting] slot_ok_def n PC_waiting
        has_jvmti_events_only_flag all_sources)
qed (use assms in \<open>auto simp add: dispatch_defs slot_ok_def has_jvmti_events_only_flag
      all_sources split: option.splits\<close>)

lemma enqueue_result:
  "enqueue_deferred_event debug e s = Inr s' \<Longrightarrow>
     s' = s\<lparr> jvmti_service_queue := jvmti_service_queue s @ [e],
              trace := trace s @ [Lock, QEnqueue e, NotifyAll, Unlock] \<rparr>"
  by (auto simp add: enqueue_deferred_event_def emit_def queue_enqueue_def Let_def
      split: if_splits)

lemma slot_ok_step:
  assumes "slot_ok s" "step debug a s = Inr s'"
  shows "slot_ok s'"
proof (cases a)
  case (Enqueue e)
  with assms(2) have "enqueue_deferred_event debug e s = Inr s'" by (simp add: step_def)
  from enqueue_result [OF this] assms(1) show ?thesis
    by (simp add: slot_ok_def split: pc.splits)
next
  case (Worker ev)
  with assms slot_ok_worker [OF assms(1), of ev] show ?thesis
    by (auto simp add: step_def split: if_splits)
qed

lemma fifo_ok_worker:
  assumes "slot_ok s" "fifo_ok s" "worker_step ev s = Inr s'"
  shows "fifo_ok s'"
proof (cases "pc s")
  case PC_top
  let ?s1 = "s\<lparr>fl := declared_flags, trace := trace s @ [EnterBlocked, Lock]\<rparr>"
  have d: "fl ?s1 = declared_flags" by simp
  from assms PC_top have n: "jvmti_event s = None" by (simp add: slot_ok_def)
  from assms(3) have w: "wait_loop_pass ev ?s1 = Inr s'"
    by (simp add: worker_step_top [OF PC_top])
  show ?thesis
    by (rule wait_loop_pass_result [OF d, of ev])
      (use w assms(2) n PC_top in \<open>auto simp add: fifo_ok_def pending_def awaiting_reset_def
         enqs_append deqs_append posts_append\<close>)
next
  case PC_waiting
  let ?s1 = "s\<lparr>trace := trace s @ [Woken]\<rparr>"
  from assms PC_waiting have n: "jvmti_event s = None" "fl s = declared_flags"
    by (simp_all add: slot_ok_def)
  then have d: "fl ?s1 = declared_flags" by simp
  from assms(3) have w: "wait_loop_pass ev ?s1 = Inr s'"
    by (simp add: worker_step_waiting [OF PC_waiting])
  show ?thesis
    by (rule wait_loop_pass_result [OF d, of ev])
      (use w assms(2) n PC_waiting in \<open>auto simp add: fifo_ok_def pending_def
         awaiting_reset_def enqs_append deqs_append posts_append\<close>)
qed (use assms in \<open>auto simp add: dispatch_defs slot_ok_def fifo_ok_def pending_def
      awaiting_reset_def enqs_append deqs_append posts_append has_jvmti_events_only_flag
      split: option.splits if_splits\<close>)

lemma pending_frame:
  "pending (s\<lparr>jvmti_service_queue := q, trace := t\<rparr>) = pending s"
  "awaiting_reset (s\<lparr>jvmti_service_queue := q, trace := t\<rparr>) = awaiting_reset s"
  by (simp_all add: pending_def awaiting_reset_def)

lemma fifo_ok_step:
  assumes "slot_ok s" "fifo_ok s" "step debug a s = Inr s'"
  shows "fifo_ok s'"
proof (cases a)
  case (Enqueue e)
  with assms(3) have "enqueue_deferred_event debug e s = Inr s'" by (simp add: step_def)
  from enqueue_result [OF this] assms(2) show ?thesis
    by (simp add: fifo_ok_def pending_frame enqs_append deqs_append posts_append)
next
  case (Worker ev)
  with assms fifo_ok_worker [OF assms(1,2), of ev s'] show ?thesis
    by (auto simp add: step_def split: if_splits)
qed

lemma lock_free_worker:
  assumes "slot_ok s" "lock_free s" "worker_step ev s = Inr s'"
  shows "lock_free s'"
proof (cases "pc s")
  case PC_top
  let ?s1 = "s\<lparr>fl := declared_flags, trace := trace s @ [EnterBlocked, Lock]\<rparr>"
  have d: "fl ?s1 = declared_flags" by simp
  from assms(3) have w: "wait_loop_pass ev ?s1 = Inr s'"
    by (simp add: worker_step_top [OF PC_top])
  show ?thesis
    by (rule wait_loop_pass_result [OF d, of ev])
      (use w assms(2) in \<open>auto simp add: lock_free_def\<close>)
next
  case PC_waiting
  let ?s1 = "s\<lparr>trace := trace s @ [Woken]\<rparr>"
  from assms PC_waiting have d: "fl ?s1 = declared_flags"
    by (simp_all add: slot_ok_def)
  from assms(3) have w: "wait_loop_pass ev ?s1 = Inr s'"
    by (simp add: worker_step_waiting [OF PC_waiting])
  show ?thesis
    by (rule wait_loop_pass_result [OF d, of ev])
      (use w assms(2) in \<open>auto simp add: lock_free_def\<close>)
qed (use assms in \<open>auto simp add: dispatch_defs lock_free_def
      split: option.splits if_splits\<close>)

lemma lock_free_step:
  assumes "slot_ok s" "lock_free s" "step debug a s = Inr s'"
  shows "lock_free s'"
proof (cases a)
  case (Enqueue e)
  with assms(3) have "enqueue_deferred_event debug e s = Inr s'" by (simp add: step_def)
  from enqueue_result [OF this] assms(2) show ?thesis
    by (simp add: lock_free_def)
next
  case (Worker ev)
  with assms lock_free_worker [OF assms(1,2), of ev s'] show ?thesis
    by (auto simp add: step_def split: if_splits)
qed

subsection \<open>Executions and their invariants\<close>

lemma exec_invariant:
  assumes "\<And>a s s'. P s \<Longrightarrow> step debug a s = Inr s' \<Longrightarrow> P s'"
  shows "P s \<Longrightarrow> exec debug acts s = Inr s' \<Longrightarrow> P s'"
proof (induction acts arbitrary: s)
  case Nil
  then show ?case by simp
next
  case (Cons a acts)
  from Cons.prems(2) obtain s1 where s1: "step debug a s = Inr s1" "exec debug acts s1 = Inr s'"
    by (auto split: sum.splits)
  from assms [OF Cons.prems(1) s1(1)] Cons.IH s1(2) show ?case by blast
qed

lemma idle_invariants:
  assumes "idle s"
  shows "slot_ok s" "fifo_ok s" "lock_free s" "disp_ok s" "iter_ok s"
  using assms
  by (simp_all add: idle_def slot_ok_def fifo_ok_def lock_free_def disp_ok_def iter_ok_def
      pending_def awaiting_reset_def iteration_work_def)

lemma worker_step_enqs:
  assumes "slot_ok s" "worker_step ev s = Inr s'"
  shows "enqs (trace s') = enqs (trace s)"
proof (cases "pc s")
  case PC_top
  let ?s1 = "s\<lparr>fl := declared_flags, trace := trace s @ [EnterBlocked, Lock]\<rparr>"
  have d: "fl ?s1 = declared_flags" by simp
  from assms(2) have w: "wait_loop_pass ev ?s1 = Inr s'"
    by (simp add: worker_step_top [OF PC_top])
  show ?thesis
    by (rule wait_loop_pass_result [OF d, of ev]) (use w in \<open>auto simp add: enqs_append\<close>)
next
  case PC_waiting
  let ?s1 = "s\<lparr>trace := trace s @ [Woken]\<rparr>"
  from assms PC_waiting have d: "fl ?s1 = declared_flags"
    by (simp_all add: slot_ok_def)
  from assms(2) have w: "wait_loop_pass ev ?s1 = Inr s'"
    by (simp add: worker_step_waiting [OF PC_waiting])
  show ?thesis
    by (rule wait_loop_pass_result [OF d, of ev]) (use w in \<open>auto simp add: enqs_append\<close>)
qed (use assms in \<open>auto simp add: dispatch_defs enqs_append
      split: option.splits if_splits\<close>)

lemma exec_enqs:
  "slot_ok s \<Longrightarrow> exec debug acts s = Inr s' \<Longrightarrow>
     enqs (trace s') = enqs (trace s) @ enqueued acts"
proof (induction acts arbitrary: s)
  case Nil
  then show ?case by simp
next
  case (Cons a acts)
  from Cons.prems(2) obtain s1 where s1: "step debug a s = Inr s1" "exec debug acts s1 = Inr s'"
    by (auto split: sum.splits)
  from slot_ok_step [OF Cons.prems(1) s1(1)] have ok: "slot_ok s1" .
  have "enqs (trace s1) @ enqueued acts = enqs (trace s) @ enqueued (a # acts)"
  proof (cases a)
    case (Enqueue e)
    with s1(1) have "enqueue_deferred_event debug e s = Inr s1" by (simp add: step_def)
    from enqueue_result [OF this] Enqueue show ?thesis by (simp add: enqs_append)
  next
    case (Worker ev)
    with s1(1) worker_step_enqs [OF Cons.prems(1), of ev s1] show ?thesis
      by (auto simp add: step_def split: if_splits)
  qed
  with Cons.IH [OF ok s1(2)] show ?case by simp
qed

lemma reachable_fifo:
  assumes "idle s0" "exec debug acts s0 = Inr s"
  shows "slot_ok s" "fifo_ok s" "enqs (trace s) = enqueued acts" "lock_free s"
proof -
  have "slot_ok s0 \<and> fifo_ok s0 \<and> lock_free s0"
    using idle_invariants [OF assms(1)] by simp
  then have "slot_ok s \<and> fifo_ok s \<and> lock_free s"
    by (rule exec_invariant [where P = "\<lambda>s. slot_ok s \<and> fifo_ok s \<and> lock_free s", rotated 1, OF _ assms(2)])
      (auto intro: slot_ok_step fifo_ok_step lock_free_step)
  then show "slot_ok s" "fifo_ok s" "lock_free s" by simp_all
  from exec_enqs [OF idle_invariants(1) [OF assms(1)] assms(2)] assms(1)
  show "enqs (trace s) = enqueued acts" by (simp add: idle_def)
qed

lemma pending_short: "length (pending s) \<le> 1"
  by (simp add: pending_def split: option.splits)

lemma idle_booted: "idle booted"
  by (simp add: idle_def booted_def vm_start_def)



subsection \<open>The dispatch phase\<close>

lemma dispatch_one_step:
  assumes "in_dispatch (pc s)" "slot_ready s"
  shows "\<exists>s' u. worker_step ev s = Inr s' \<and> trace s' = trace s @ u \<and> fl s' = fl s
           \<and> slot_ready s'
           \<and> ((pc s' \<noteq> PC_returned \<and> pc s' \<noteq> PC_waiting
                \<and> steps_left (pc s') < steps_left (pc s)
                \<and> works u @ filter (flag_of (fl s)) (todo (pc s'))
                    = filter (flag_of (fl s)) (todo (pc s)))
               \<or> (pc s' = PC_returned \<and> (gc_raises ev \<or> dcmd_raises ev)
                   \<and> prefix (works u) (filter (flag_of (fl s)) (todo (pc s)))))"
  using assms
  by (cases "pc s")
    (auto simp add: dispatch_defs in_dispatch_def slot_ready_def todo_def priority_order_def)

lemma run_dispatch_stopped:
  "\<not> in_dispatch (pc s) \<Longrightarrow> run_dispatch evs s = Inr s"
  by (cases evs) simp_all

lemma steps_left_pos: "in_dispatch p \<Longrightarrow> 0 < steps_left p"
  by (cases p) (simp_all add: in_dispatch_def)

lemma run_dispatch_from:
  assumes "in_dispatch (pc s)" "slot_ready s" "steps_left (pc s) \<le> length evs"
  shows "\<exists>s' u. run_dispatch evs s = Inr s' \<and> trace s' = trace s @ u
           \<and> ((pc s' = PC_top \<and> works u = filter (flag_of (fl s)) (todo (pc s)))
               \<or> (pc s' = PC_returned
                   \<and> (\<exists>ev\<in>set evs. gc_raises ev \<or> dcmd_raises ev)
                   \<and> prefix (works u) (filter (flag_of (fl s)) (todo (pc s)))))"
  using assms
proof (induction evs arbitrary: s)
  case Nil
  with steps_left_pos [of "pc s"] show ?case by simp
next
  case (Cons ev evs)
  from dispatch_one_step [OF Cons.prems(1,2), of ev] obtain s1 u1 where
    s1: "worker_step ev s = Inr s1" "trace s1 = trace s @ u1" "fl s1 = fl s" "slot_ready s1"
    and alt: "(pc s1 \<noteq> PC_returned \<and> pc s1 \<noteq> PC_waiting
                \<and> steps_left (pc s1) < steps_left (pc s)
                \<and> works u1 @ filter (flag_of (fl s)) (todo (pc s1))
                    = filter (flag_of (fl s)) (todo (pc s)))
               \<or> (pc s1 = PC_returned \<and> (gc_raises ev \<or> dcmd_raises ev)
                   \<and> prefix (works u1) (filter (flag_of (fl s)) (todo (pc s))))"
    by blast
  have run: "run_dispatch (ev # evs) s = run_dispatch evs s1"
    using Cons.prems(1) s1(1) by simp
  show ?case
  proof (cases "in_dispatch (pc s1)")
    case True
    with alt have lt: "steps_left (pc s1) < steps_left (pc s)"
      and w: "works u1 @ filter (flag_of (fl s)) (todo (pc s1))
                = filter (flag_of (fl s)) (todo (pc s))"
      by (auto simp add: in_dispatch_def)
    from lt Cons.prems(3) have "steps_left (pc s1) \<le> length evs" by simp
    from Cons.IH [OF True s1(4) this] obtain s' u where
      r: "run_dispatch evs s1 = Inr s'" "trace s' = trace s1 @ u"
      and alt': "(pc s' = PC_top \<and> works u = filter (flag_of (fl s1)) (todo (pc s1)))
               \<or> (pc s' = PC_returned
                   \<and> (\<exists>ev\<in>set evs. gc_raises ev \<or> dcmd_raises ev)
                   \<and> prefix (works u) (filter (flag_of (fl s1)) (todo (pc s1))))"
      by blast
    have t: "trace s' = trace s @ (u1 @ u)" using r(2) s1(2) by simp
    from alt' show ?thesis
    proof
      assume "pc s' = PC_top \<and> works u = filter (flag_of (fl s1)) (todo (pc s1))"
      with w s1(3) have "pc s' = PC_top"
        "works (u1 @ u) = filter (flag_of (fl s)) (todo (pc s))"
        by (simp_all add: works_append)
      with run r(1) t show ?thesis
        by (intro exI [of _ s'] exI [of _ "u1 @ u"]) simp
    next
      assume a: "pc s' = PC_returned
                   \<and> (\<exists>ev\<in>set evs. gc_raises ev \<or> dcmd_raises ev)
                   \<and> prefix (works u) (filter (flag_of (fl s1)) (todo (pc s1)))"
      then have "prefix (works u1 @ works u) (works u1 @ filter (flag_of (fl s)) (todo (pc s1)))"
        using s1(3) by simp
      with w have "prefix (works (u1 @ u)) (filter (flag_of (fl s)) (todo (pc s)))"
        by (simp add: works_append)
      with a run r(1) t show ?thesis
        by (intro exI [of _ s'] exI [of _ "u1 @ u"]) simp
    qed
  next
    case False
    then have stop: "run_dispatch evs s1 = Inr s1" by (rule run_dispatch_stopped)
    from False alt have "(pc s1 = PC_top \<and> works u1 = filter (flag_of (fl s)) (todo (pc s)))
       \<or> (pc s1 = PC_returned \<and> (gc_raises ev \<or> dcmd_raises ev)
                   \<and> prefix (works u1) (filter (flag_of (fl s)) (todo (pc s))))"
      by (auto simp add: in_dispatch_def todo_def)
    with run stop s1(2) show ?thesis
      by (intro exI [of _ s1] exI [of _ u1]) auto
  qed
qed

text \<open>
  C5: from the first statement after the critical section, whatever the flags, the
  dispatch phase ends at the end of the loop body or, after a pending exception of a
  notification call, with the return of the entry function. The work operations it calls
  are, in this order, those of the flagged work kinds among: string table, symbol table,
  the post of the in-flight event, low-memory sensors, GC notification, diagnostic-command
  notification, resolved-method table, protection-domain table. Ending at the end of the
  loop body it has called all the flagged ones; after an exception, a prefix of them.
  The order does not depend on the iteration.
\<close>

theorem dispatch_in_priority_order:
  assumes "pc s = PC_stringtable"
    and "has_jvmti_events (fl s) \<longrightarrow> jvmti_event s \<noteq> None"
    and "9 \<le> length evs"
  shows "\<exists>s' u. run_dispatch evs s = Inr s' \<and> trace s' = trace s @ u
           \<and> prefix (works u) (filter (flag_of (fl s)) priority_order)
           \<and> (pc s' = PC_top \<or> pc s' = PC_returned)
           \<and> (pc s' = PC_top \<longrightarrow> works u = filter (flag_of (fl s)) priority_order)
           \<and> ((\<forall>ev\<in>set evs. \<not> gc_raises ev \<and> \<not> dcmd_raises ev) \<longrightarrow> pc s' = PC_top)"
proof -
  have d: "in_dispatch (pc s)" using assms(1) by (simp add: in_dispatch_def)
  have r: "slot_ready s" using assms(2) by (simp add: slot_ready_def)
  have n: "steps_left (pc s) \<le> length evs" using assms(1,3) by simp
  have t: "todo (pc s) = priority_order" using assms(1) by (simp add: todo_def in_dispatch_def)
  from run_dispatch_from [OF d r n] t show ?thesis by (auto simp add: prefix_def)
qed

theorem dispatch_in_priority_order_witness:
  "pc dispatch_start = PC_stringtable
   \<and> jvmti_event dispatch_start \<noteq> None
   \<and> 9 \<le> length (replicate 9 quiet)
   \<and> (\<exists>s'. run_dispatch (replicate 9 quiet) dispatch_start = Inr s'
           \<and> pc s' = PC_top
           \<and> works (trace s') =
               [StringTable, JvmtiServiceQueue, LowMemoryDetector, GCNotifier,
                ProtectionDomainTable])"
proof -
  have a: "pc dispatch_start = PC_stringtable" "jvmti_event dispatch_start \<noteq> None"
    "trace dispatch_start = []" "fl dispatch_start = several_flags"
    by (simp_all add: dispatch_start_def booted_def vm_start_def)
  have b: "9 \<le> length (replicate 9 quiet)" by simp
  have q: "\<forall>ev\<in>set (replicate 9 quiet). \<not> gc_raises ev \<and> \<not> dcmd_raises ev"
    by (simp add: quiet_def)
  have f: "filter (flag_of several_flags) priority_order =
             [StringTable, JvmtiServiceQueue, LowMemoryDetector, GCNotifier,
              ProtectionDomainTable]"
    by (simp add: several_flags_def declared_flags_def priority_order_def)
  from a(2) have c: "has_jvmti_events (fl dispatch_start) \<longrightarrow> jvmti_event dispatch_start \<noteq> None"
    by simp
  from dispatch_in_priority_order [OF a(1) c b] q obtain s' u where
    "run_dispatch (replicate 9 quiet) dispatch_start = Inr s'"
    "trace s' = trace dispatch_start @ u" "pc s' = PC_top"
    "works u = filter (flag_of (fl dispatch_start)) priority_order"
    by blast
  with a f have "run_dispatch (replicate 9 quiet) dispatch_start = Inr s' \<and> pc s' = PC_top
           \<and> works (trace s') =
               [StringTable, JvmtiServiceQueue, LowMemoryDetector, GCNotifier,
                ProtectionDomainTable]"
    by simp
  with a b show ?thesis by blast
qed

subsection \<open>One dispatch for each observed predicate\<close>

lemma fields_only_flag:
  "sensors_changed (only_flag x) = (x = LowMemoryDetector)"
  "has_gc_notification_event (only_flag x) = (x = GCNotifier)"
  "has_dcmd_notification_event (only_flag x) = (x = DCmdFactory)"
  "acs_notify (only_flag x) = False"
  "stringtable_work (only_flag x) = (x = StringTable)"
  "symboltable_work (only_flag x) = (x = SymbolTable)"
  "resolved_method_table_work (only_flag x) = (x = ResolvedMethodTable)"
  "protection_domain_table_work (only_flag x) = (x = ProtectionDomainTable)"
  by (cases x; simp add: only_flag_def declared_flags_def)+

lemma num_true_only_flag: "num_true (only_flag x) = 1"
  by (cases x; simp add: num_true_def only_flag_def declared_flags_def)

lemma one_kind_only_flag: "filter (flag_of (only_flag x)) priority_order = [x]"
  by (cases x; simp add: priority_order_def fields_only_flag has_jvmti_events_only_flag)

lemma slot_ok_only_flag:
  "slot_ok s \<Longrightarrow> in_dispatch (pc s) \<Longrightarrow> \<exists>x. fl s = only_flag x"
  by (cases "pc s") (auto simp add: slot_ok_def in_dispatch_def)

lemma disp_ok_perform_if:
  assumes "fold dispatch_step (trace s) (Some ([], [], False)) = Some (seen, served, False)"
    and "set seen = {x}" "\<forall>z\<in>set served. rank z < rank y" "b = (x = y)"
  shows "\<exists>served'. fold dispatch_step (trace (perform_if b y p s)) (Some ([], [], False))
            = Some (seen, served', False) \<and> (\<forall>z\<in>set served'. rank z < Suc (rank y))"
  using assms by (auto simp add: perform_if_def emit_def less_Suc_eq)

lemma disp_ok_perform_check:
  assumes "fold dispatch_step (trace s) (Some ([], [], False)) = Some (seen, served, False)"
    and "set seen = {x}" "\<forall>z\<in>set served. rank z < rank y" "b = (x = y)"
  shows "\<exists>served'. fold dispatch_step (trace (perform_check b r y p s)) (Some ([], [], False))
            = Some (seen, served', False) \<and> (\<forall>z\<in>set served'. rank z < Suc (rank y))"
  using assms by (auto simp add: perform_check_def emit_def less_Suc_eq)

lemma perform_frame [simp]:
  "fl (perform_if b y p s) = fl s" "pc (perform_if b y p s) = p"
  "fl (perform_check b r y p s) = fl s"
  "pc (perform_check b r y p s) = (if b \<and> r then PC_returned else p)"
  by (simp_all add: perform_if_def perform_check_def emit_def)

lemma disp_okI:
  assumes "fold dispatch_step (trace s') (Some ([], [], False)) = Some (seen, served', False)"
    and "set seen = {x}" "fl s' = only_flag x" "pc s' \<noteq> PC_waiting"
    and "pc s' \<noteq> PC_returned \<Longrightarrow> \<forall>z\<in>set served'. rank z < served_count (pc s')"
  shows "disp_ok s'"
proof -
  have c: "{y. flag_of (fl s') y} = {x}" using assms(3) by (simp add: flag_of_only_flag)
  show ?thesis
    unfolding disp_ok_def assms(1) c
    using assms(2,4,5) by (cases "pc s'") simp_all
qed

lemma disp_ok_worker:
  assumes "slot_ok s" "disp_ok s" "worker_step ev s = Inr s'"
  shows "disp_ok s'"
proof -
  from assms(2) obtain seen served polling where
    f: "fold dispatch_step (trace s) (Some ([], [], False)) = Some (seen, served, polling)"
    by (auto simp add: disp_ok_def split: option.splits)
  show ?thesis
  proof (cases "in_dispatch (pc s)")
    case True
    from slot_ok_only_flag [OF assms(1) True] obtain x where x: "fl s = only_flag x" by blast
    have c: "{y. flag_of (fl s) y} = {x}" using x by (simp add: flag_of_only_flag)
    from assms(2) True have "\<not> polling \<and> set seen = {x}
      \<and> (\<forall>z\<in>set served. rank z < served_count (pc s))"
      unfolding disp_ok_def f c by (cases "pc s") (simp_all add: in_dispatch_def)
    then have g: "\<not> polling" "set seen = {x}"
      "\<forall>z\<in>set served. rank z < served_count (pc s)"
      by simp_all
    from f g have f': "fold dispatch_step (trace s) (Some ([], [], False)) = Some (seen, served, False)"
      by simp
    show ?thesis
    proof (cases "pc s")
      case PC_stringtable
      with assms(3) have s': "s' = perform_if (stringtable_work (fl s)) StringTable PC_symboltable s"
        by (simp add: worker_step_def)
      from g(3) PC_stringtable have r: "\<forall>z\<in>set served. rank z < rank StringTable" by simp
      from disp_ok_perform_if [OF f' g(2) r, of "stringtable_work (fl s)" PC_symboltable] x
      obtain served' where
        1: "fold dispatch_step (trace s') (Some ([], [], False)) = Some (seen, served', False)"
        and 2: "\<forall>z\<in>set served'. rank z < Suc (rank StringTable)"
        unfolding s' by (auto simp add: fields_only_flag)
      show ?thesis
        by (rule disp_okI [OF 1 g(2)])
          (use 2 x s' in \<open>auto simp add: eval_nat_numeral split: if_splits\<close>)
    next
      case PC_symboltable
      with assms(3) have s': "s' = perform_if (symboltable_work (fl s)) SymbolTable PC_post s"
        by (simp add: worker_step_def)
      from g(3) PC_symboltable have r: "\<forall>z\<in>set served. rank z < rank SymbolTable" by simp
      from disp_ok_perform_if [OF f' g(2) r, of "symboltable_work (fl s)" PC_post] x
      obtain served' where
        1: "fold dispatch_step (trace s') (Some ([], [], False)) = Some (seen, served', False)"
        and 2: "\<forall>z\<in>set served'. rank z < Suc (rank SymbolTable)"
        unfolding s' by (auto simp add: fields_only_flag)
      show ?thesis
        by (rule disp_okI [OF 1 g(2)])
          (use 2 x s' in \<open>auto simp add: eval_nat_numeral split: if_splits\<close>)
    next
      case PC_post
      from g(3) PC_post have r: "\<forall>z\<in>set served. rank z < 2" by simp
      show ?thesis
      proof (cases "x = JvmtiServiceQueue")
        case True
        with assms(1) PC_post x obtain e where e: "jvmti_event s = Some e"
          by (auto simp add: slot_ok_def has_jvmti_events_only_flag)
        with assms(3) PC_post x True have s': "s' = s\<lparr>trace := trace s @ [Post e], pc := PC_reset\<rparr>"
          by (simp add: worker_step_def emit_def has_jvmti_events_only_flag)
        from r have "JvmtiServiceQueue \<notin> set served" by auto
        with f' g(2) True have
          1: "fold dispatch_step (trace s') (Some ([], [], False))
             = Some (seen, JvmtiServiceQueue # served, False)"
          by (simp add: s')
        from r have 2: "\<forall>z\<in>set (JvmtiServiceQueue # served). rank z < 3" by auto
        show ?thesis
          by (rule disp_okI [OF 1 g(2)])
          (use 2 x s' in \<open>auto simp add: eval_nat_numeral split: if_splits\<close>)
      next
        case False
        with assms(3) PC_post x have s': "s' = s\<lparr>pc := PC_sensors\<rparr>"
          by (simp add: worker_step_def has_jvmti_events_only_flag)
        from r have 2: "\<forall>z\<in>set served. rank z < 3" by auto
        from f' s' have
          1: "fold dispatch_step (trace s') (Some ([], [], False)) = Some (seen, served, False)"
          by simp
        show ?thesis
          by (rule disp_okI [OF 1 g(2)])
          (use 2 x s' in \<open>auto simp add: eval_nat_numeral split: if_splits\<close>)
      qed
    next
      case PC_reset
      with assms(3) have s': "s' = s\<lparr>jvmti_event := None, pc := PC_sensors\<rparr>"
        by (simp add: worker_step_def)
      from g(3) PC_reset have 2: "\<forall>z\<in>set served. rank z < 3" by simp
      from f' s' have
        1: "fold dispatch_step (trace s') (Some ([], [], False)) = Some (seen, served, False)"
        by simp
      show ?thesis
        by (rule disp_okI [OF 1 g(2)])
          (use 2 x s' in \<open>auto simp add: eval_nat_numeral split: if_splits\<close>)
    next
      case PC_sensors
      with assms(3) have s': "s' = perform_if (sensors_changed (fl s)) LowMemoryDetector PC_gc s"
        by (simp add: worker_step_def)
      from g(3) PC_sensors have r: "\<forall>z\<in>set served. rank z < rank LowMemoryDetector" by simp
      from disp_ok_perform_if [OF f' g(2) r, of "sensors_changed (fl s)" PC_gc] x
      obtain served' where
        1: "fold dispatch_step (trace s') (Some ([], [], False)) = Some (seen, served', False)"
        and 2: "\<forall>z\<in>set served'. rank z < Suc (rank LowMemoryDetector)"
        unfolding s' by (auto simp add: fields_only_flag)
      show ?thesis
        by (rule disp_okI [OF 1 g(2)])
          (use 2 x s' in \<open>auto simp add: eval_nat_numeral split: if_splits\<close>)
    next
      case PC_gc
      with assms(3) have s': "s' = perform_check (has_gc_notification_event (fl s)) (gc_raises ev) GCNotifier PC_dcmd s"
        by (simp add: worker_step_def)
      from g(3) PC_gc have r: "\<forall>z\<in>set served. rank z < rank GCNotifier" by simp
      from disp_ok_perform_check [OF f' g(2) r, of "has_gc_notification_event (fl s)" "gc_raises ev" PC_dcmd] x
      obtain served' where
        1: "fold dispatch_step (trace s') (Some ([], [], False)) = Some (seen, served', False)"
        and 2: "\<forall>z\<in>set served'. rank z < Suc (rank GCNotifier)"
        unfolding s' by (auto simp add: fields_only_flag)
      show ?thesis
        by (rule disp_okI [OF 1 g(2)])
          (use 2 x s' in \<open>auto simp add: eval_nat_numeral split: if_splits\<close>)
    next
      case PC_dcmd
      with assms(3) have s': "s' = perform_check (has_dcmd_notification_event (fl s)) (dcmd_raises ev) DCmdFactory PC_rmt s"
        by (simp add: worker_step_def)
      from g(3) PC_dcmd have r: "\<forall>z\<in>set served. rank z < rank DCmdFactory" by simp
      from disp_ok_perform_check [OF f' g(2) r, of "has_dcmd_notification_event (fl s)" "dcmd_raises ev" PC_rmt] x
      obtain served' where
        1: "fold dispatch_step (trace s') (Some ([], [], False)) = Some (seen, served', False)"
        and 2: "\<forall>z\<in>set served'. rank z < Suc (rank DCmdFactory)"
        unfolding s' by (auto simp add: fields_only_flag)
      show ?thesis
        by (rule disp_okI [OF 1 g(2)])
          (use 2 x s' in \<open>auto simp add: eval_nat_numeral split: if_splits\<close>)
    next
      case PC_rmt
      with assms(3) have s': "s' = perform_if (resolved_method_table_work (fl s)) ResolvedMethodTable PC_pd s"
        by (simp add: worker_step_def)
      from g(3) PC_rmt have r: "\<forall>z\<in>set served. rank z < rank ResolvedMethodTable" by simp
      from disp_ok_perform_if [OF f' g(2) r, of "resolved_method_table_work (fl s)" PC_pd] x
      obtain served' where
        1: "fold dispatch_step (trace s') (Some ([], [], False)) = Some (seen, served', False)"
        and 2: "\<forall>z\<in>set served'. rank z < Suc (rank ResolvedMethodTable)"
        unfolding s' by (auto simp add: fields_only_flag)
      show ?thesis
        by (rule disp_okI [OF 1 g(2)])
          (use 2 x s' in \<open>auto simp add: eval_nat_numeral split: if_splits\<close>)
    next
      case PC_pd
      with assms(3) have s': "s' = perform_if (protection_domain_table_work (fl s)) ProtectionDomainTable PC_top s"
        by (simp add: worker_step_def)
      from g(3) PC_pd have r: "\<forall>z\<in>set served. rank z < rank ProtectionDomainTable" by simp
      from disp_ok_perform_if [OF f' g(2) r, of "protection_domain_table_work (fl s)" PC_top] x
      obtain served' where "fold dispatch_step (trace s') (Some ([], [], False)) = Some (seen, served', False)"
        unfolding s' by (auto simp add: fields_only_flag)
      then show ?thesis using s' by (simp add: disp_ok_def)
    qed (use True in \<open>simp_all add: in_dispatch_def\<close>)
  next
    case False
    then consider "pc s = PC_top" | "pc s = PC_waiting" | "pc s = PC_returned"
      by (auto simp add: in_dispatch_def)
    then show ?thesis
    proof cases
      case 1
      let ?s1 = "s\<lparr>fl := declared_flags, trace := trace s @ [EnterBlocked, Lock]\<rparr>"
      have d: "fl ?s1 = declared_flags" by simp
      from assms(3) have w: "wait_loop_pass ev ?s1 = Inr s'"
        by (simp add: worker_step_top [OF 1])
      show ?thesis
        by (rule wait_loop_pass_result [OF d, of ev])
          (use w f in \<open>auto simp add: disp_ok_def flag_of_only_flag fields_only_flag
             has_jvmti_events_only_flag\<close>)
    next
      case 2
      let ?s1 = "s\<lparr>trace := trace s @ [Woken]\<rparr>"
      from assms 2 have d: "fl ?s1 = declared_flags"
        by (simp_all add: slot_ok_def)
      from assms(2) f 2 have p: "polling" "served = []" by (simp_all add: disp_ok_def)
      from assms(3) have w: "wait_loop_pass ev ?s1 = Inr s'"
        by (simp add: worker_step_waiting [OF 2])
      show ?thesis
        by (rule wait_loop_pass_result [OF d, of ev])
          (use w f p in \<open>auto simp add: disp_ok_def flag_of_only_flag fields_only_flag
             has_jvmti_events_only_flag\<close>)
    next
      case 3
      with assms(2,3) show ?thesis by (simp add: worker_step_def)
    qed
  qed
qed

lemma disp_ok_step:
  assumes "slot_ok s" "disp_ok s" "step debug a s = Inr s'"
  shows "disp_ok s'"
proof (cases a)
  case (Enqueue e)
  with assms(3) have "enqueue_deferred_event debug e s = Inr s'" by (simp add: step_def)
  from enqueue_result [OF this] assms(2) show ?thesis
    by (auto simp add: disp_ok_def split: option.splits pc.splits)
next
  case (Worker ev)
  with assms disp_ok_worker [OF assms(1,2), of ev s'] show ?thesis
    by (auto simp add: step_def split: if_splits)
qed

text \<open>
  C6: in every execution from an idle state the trace is accepted by \<open>dispatch_step\<close>:
  the predicates are polled only inside the \<^verbatim>\<open>ThreadBlockInVM\<close> scope, never in the
  dispatch phase; a work operation is called only outside that scope, only for a source
  whose predicate answered true in the last evaluation of the wait condition of the same
  iteration, and at most once before the next iteration enters its scope and polls again.
\<close>

theorem single_dispatch_per_iteration:
  assumes "idle s0" "exec debug acts s0 = Inr s"
  shows "single_dispatch (trace s)"
proof -
  have "slot_ok s0 \<and> disp_ok s0"
    using idle_invariants [OF assms(1)] by simp
  then have "slot_ok s \<and> disp_ok s"
    by (rule exec_invariant [where P = "\<lambda>s. slot_ok s \<and> disp_ok s", rotated 1, OF _ assms(2)])
      (auto intro: slot_ok_step disp_ok_step)
  then show ?thesis
    by (auto simp add: disp_ok_def single_dispatch_def split: option.splits)
qed

lemma example_run_works:
  "(case exec True example_run booted of
      Inl err \<Rightarrow> False
    | Inr s \<Rightarrow> works (trace s) = [JvmtiServiceQueue] \<and> pc s = PC_reset)"
  by code_simp

theorem single_dispatch_per_iteration_witness:
  "idle booted
   \<and> (\<exists>s. exec True example_run booted = Inr s
          \<and> works (trace s) = [JvmtiServiceQueue]
          \<and> single_dispatch (trace s))"
proof -
  from example_run_works obtain s where
    s: "exec True example_run booted = Inr s" "works (trace s) = [JvmtiServiceQueue]"
    by (cases "exec True example_run booted") auto
  from single_dispatch_per_iteration [OF idle_booted s(1)] s idle_booted
  show ?thesis by auto
qed

subsection \<open>One work kind for each iteration\<close>

lemma rank_inj: "rank x = rank y \<Longrightarrow> x = y"
  by (cases x; cases y; simp)

lemma rank_filter:
  "filter (\<lambda>y. flag_of (only_flag x) y \<and> rank y < n) priority_order
     = (if rank x < n then [x] else [])"
  by (cases x; simp add: priority_order_def fields_only_flag has_jvmti_events_only_flag)

lemma iteration_work_append:
  "iteration_work (t @ u) = fold iteration_step u (iteration_work t)"
  by (simp add: iteration_work_def)

lemma iter_perform_if:
  assumes "iteration_work (trace s) = (if rank x < rank y then [x] else [])" "b = (x = y)"
  shows "iteration_work (trace (perform_if b y p s))
           = (if rank x < Suc (rank y) then [x] else [])"
  using assms rank_inj [of x y]
  by (auto simp add: perform_if_def emit_def iteration_work_append less_Suc_eq)

lemma iter_perform_check:
  assumes "iteration_work (trace s) = (if rank x < rank y then [x] else [])" "b = (x = y)"
  shows "iteration_work (trace (perform_check b r y p s))
           = (if rank x < Suc (rank y) then [x] else [])"
  using assms rank_inj [of x y]
  by (auto simp add: perform_check_def emit_def iteration_work_append less_Suc_eq)

lemma iter_okI:
  assumes "fl s' = only_flag x"
    and "iteration_work (trace s') = (if rank x < n then [x] else [])"
    and "in_dispatch (pc s')" "n = served_count (pc s')"
  shows "iter_ok s'"
  using assms(2,3,4) unfolding iter_ok_def assms(1) rank_filter
  by (cases "pc s'") (simp_all add: in_dispatch_def)

lemma iter_ok_worker:
  assumes "slot_ok s" "iter_ok s" "worker_step ev s = Inr s'"
  shows "iter_ok s'"
proof (cases "in_dispatch (pc s)")
  case True
  from slot_ok_only_flag [OF assms(1) True] obtain x where x: "fl s = only_flag x" by blast
  from assms(2) True have
    g: "iteration_work (trace s) = (if rank x < served_count (pc s) then [x] else [])"
    unfolding iter_ok_def x rank_filter by (cases "pc s") (simp_all add: in_dispatch_def)
  show ?thesis
  proof (cases "pc s")
      case PC_stringtable
      with assms(3) have s': "s' = perform_if (stringtable_work (fl s)) StringTable PC_symboltable s"
        by (simp add: worker_step_def)
      from g PC_stringtable have r: "iteration_work (trace s) = (if rank x < rank StringTable then [x] else [])"
        by simp
      from iter_perform_if [OF r, of "stringtable_work (fl s)" PC_symboltable] x
      have 1: "iteration_work (trace s') = (if rank x < Suc (rank StringTable) then [x] else [])"
        unfolding s' by (simp add: fields_only_flag)
      show ?thesis
        by (rule iter_okI [OF _ 1]) (use x s' in \<open>simp_all add: eval_nat_numeral in_dispatch_def\<close>)
  next
      case PC_symboltable
      with assms(3) have s': "s' = perform_if (symboltable_work (fl s)) SymbolTable PC_post s"
        by (simp add: worker_step_def)
      from g PC_symboltable have r: "iteration_work (trace s) = (if rank x < rank SymbolTable then [x] else [])"
        by simp
      from iter_perform_if [OF r, of "symboltable_work (fl s)" PC_post] x
      have 1: "iteration_work (trace s') = (if rank x < Suc (rank SymbolTable) then [x] else [])"
        unfolding s' by (simp add: fields_only_flag)
      show ?thesis
        by (rule iter_okI [OF _ 1]) (use x s' in \<open>simp_all add: eval_nat_numeral in_dispatch_def\<close>)
  next
      case PC_post
      from g PC_post have r: "iteration_work (trace s) = (if rank x < 2 then [x] else [])"
        by simp
      show ?thesis
      proof (cases "x = JvmtiServiceQueue")
        case True
        with assms(1) PC_post x obtain e where e: "jvmti_event s = Some e"
          by (auto simp add: slot_ok_def has_jvmti_events_only_flag)
        with assms(3) PC_post x True have s': "s' = s\<lparr>trace := trace s @ [Post e], pc := PC_reset\<rparr>"
          by (simp add: worker_step_def emit_def has_jvmti_events_only_flag)
        from r True have 1: "iteration_work (trace s') = (if rank x < 3 then [x] else [])"
          by (simp add: s' iteration_work_def)
        show ?thesis
          by (rule iter_okI [OF _ 1]) (use x s' in \<open>simp_all add: eval_nat_numeral in_dispatch_def\<close>)
      next
        case False
        with assms(3) PC_post x have s': "s' = s\<lparr>pc := PC_sensors\<rparr>"
          by (simp add: worker_step_def has_jvmti_events_only_flag)
        from r False have 1: "iteration_work (trace s') = (if rank x < 3 then [x] else [])"
          by (cases x) (simp_all add: s')
        show ?thesis
          by (rule iter_okI [OF _ 1]) (use x s' in \<open>simp_all add: eval_nat_numeral in_dispatch_def\<close>)
      qed
  next
      case PC_reset
      with assms(3) have s': "s' = s\<lparr>jvmti_event := None, pc := PC_sensors\<rparr>"
        by (simp add: worker_step_def)
      from g PC_reset have 1: "iteration_work (trace s') = (if rank x < 3 then [x] else [])"
        by (simp add: s')
      show ?thesis
        by (rule iter_okI [OF _ 1]) (use x s' in \<open>simp_all add: eval_nat_numeral in_dispatch_def\<close>)
  next
      case PC_sensors
      with assms(3) have s': "s' = perform_if (sensors_changed (fl s)) LowMemoryDetector PC_gc s"
        by (simp add: worker_step_def)
      from g PC_sensors have r: "iteration_work (trace s) = (if rank x < rank LowMemoryDetector then [x] else [])"
        by simp
      from iter_perform_if [OF r, of "sensors_changed (fl s)" PC_gc] x
      have 1: "iteration_work (trace s') = (if rank x < Suc (rank LowMemoryDetector) then [x] else [])"
        unfolding s' by (simp add: fields_only_flag)
      show ?thesis
        by (rule iter_okI [OF _ 1]) (use x s' in \<open>simp_all add: eval_nat_numeral in_dispatch_def\<close>)
  next
      case PC_gc
      with assms(3) have s': "s' = perform_check (has_gc_notification_event (fl s)) (gc_raises ev) GCNotifier PC_dcmd s"
        by (simp add: worker_step_def)
      from g PC_gc have r: "iteration_work (trace s) = (if rank x < rank GCNotifier then [x] else [])"
        by simp
      from iter_perform_check [OF r, of "has_gc_notification_event (fl s)" "gc_raises ev" PC_dcmd] x
      have 1: "iteration_work (trace s') = (if rank x < Suc (rank GCNotifier) then [x] else [])"
        unfolding s' by (simp add: fields_only_flag)
      show ?thesis
      proof (cases "x = GCNotifier \<and> gc_raises ev")
        case True
        with 1 s' x show ?thesis by (simp add: iter_ok_def fields_only_flag)
      next
        case False
        show ?thesis
          by (rule iter_okI [OF _ 1])
            (use False x s' in \<open>auto simp add: eval_nat_numeral fields_only_flag in_dispatch_def\<close>)
      qed
  next
      case PC_dcmd
      with assms(3) have s': "s' = perform_check (has_dcmd_notification_event (fl s)) (dcmd_raises ev) DCmdFactory PC_rmt s"
        by (simp add: worker_step_def)
      from g PC_dcmd have r: "iteration_work (trace s) = (if rank x < rank DCmdFactory then [x] else [])"
        by simp
      from iter_perform_check [OF r, of "has_dcmd_notification_event (fl s)" "dcmd_raises ev" PC_rmt] x
      have 1: "iteration_work (trace s') = (if rank x < Suc (rank DCmdFactory) then [x] else [])"
        unfolding s' by (simp add: fields_only_flag)
      show ?thesis
      proof (cases "x = DCmdFactory \<and> dcmd_raises ev")
        case True
        with 1 s' x show ?thesis by (simp add: iter_ok_def fields_only_flag)
      next
        case False
        show ?thesis
          by (rule iter_okI [OF _ 1])
            (use False x s' in \<open>auto simp add: eval_nat_numeral fields_only_flag in_dispatch_def\<close>)
      qed
  next
      case PC_rmt
      with assms(3) have s': "s' = perform_if (resolved_method_table_work (fl s)) ResolvedMethodTable PC_pd s"
        by (simp add: worker_step_def)
      from g PC_rmt have r: "iteration_work (trace s) = (if rank x < rank ResolvedMethodTable then [x] else [])"
        by simp
      from iter_perform_if [OF r, of "resolved_method_table_work (fl s)" PC_pd] x
      have 1: "iteration_work (trace s') = (if rank x < Suc (rank ResolvedMethodTable) then [x] else [])"
        unfolding s' by (simp add: fields_only_flag)
      show ?thesis
        by (rule iter_okI [OF _ 1]) (use x s' in \<open>simp_all add: eval_nat_numeral in_dispatch_def\<close>)
  next
      case PC_pd
      with assms(3) have s': "s' = perform_if (protection_domain_table_work (fl s)) ProtectionDomainTable PC_top s"
        by (simp add: worker_step_def)
      from g PC_pd have r: "iteration_work (trace s) = (if rank x < rank ProtectionDomainTable then [x] else [])"
        by simp
      from iter_perform_if [OF r, of "protection_domain_table_work (fl s)" PC_top] x
      have 1: "iteration_work (trace s') = (if rank x < Suc (rank ProtectionDomainTable) then [x] else [])"
        unfolding s' by (simp add: fields_only_flag)
      have "rank x < 8" by (cases x) simp_all
      with 1 have "iteration_work (trace s') = [x]" by simp
      with x s' show ?thesis
        by (simp add: iter_ok_def one_kind_only_flag all_sources)
  qed (use True in \<open>simp_all add: in_dispatch_def\<close>)
next
  case False
  then consider "pc s = PC_top" | "pc s = PC_waiting" | "pc s = PC_returned"
    by (auto simp add: in_dispatch_def)
  then show ?thesis
  proof cases
    case 1
    let ?s1 = "s\<lparr>fl := declared_flags, trace := trace s @ [EnterBlocked, Lock]\<rparr>"
    have d: "fl ?s1 = declared_flags" by simp
    from assms(3) have w: "wait_loop_pass ev ?s1 = Inr s'"
      by (simp add: worker_step_top [OF 1])
    show ?thesis
      by (rule wait_loop_pass_result [OF d, of ev])
        (use w in \<open>auto simp add: iter_ok_def iteration_work_append rank_filter
           iteration_work_def\<close>)
  next
    case 2
    let ?s1 = "s\<lparr>trace := trace s @ [Woken]\<rparr>"
    from assms 2 have d: "fl ?s1 = declared_flags"
      by (simp_all add: slot_ok_def)
    from assms(2) 2 have p: "iteration_work (trace s) = []" by (simp add: iter_ok_def)
    from assms(3) have w: "wait_loop_pass ev ?s1 = Inr s'"
      by (simp add: worker_step_waiting [OF 2])
    show ?thesis
      by (rule wait_loop_pass_result [OF d, of ev])
        (use w p in \<open>auto simp add: iter_ok_def iteration_work_append rank_filter\<close>)
  next
    case 3
    with assms(2,3) show ?thesis by (simp add: worker_step_def)
  qed
qed

lemma iter_ok_step:
  assumes "slot_ok s" "iter_ok s" "step debug a s = Inr s'"
  shows "iter_ok s'"
proof (cases a)
  case (Enqueue e)
  with assms(3) have "enqueue_deferred_event debug e s = Inr s'" by (simp add: step_def)
  from enqueue_result [OF this] have
    "pc s' = pc s" "fl s' = fl s" "iteration_work (trace s') = iteration_work (trace s)"
    "(EnterBlocked \<in> set (trace s')) = (EnterBlocked \<in> set (trace s))"
    by (simp_all add: iteration_work_append)
  with assms(2) show ?thesis by (simp add: iter_ok_def split: pc.splits)
next
  case (Worker ev)
  with assms iter_ok_worker [OF assms(1,2), of ev s'] show ?thesis
    by (auto simp add: step_def split: if_splits)
qed

lemma num_true_declared: "num_true declared_flags = 0"
  by (simp add: num_true_def declared_flags_def)

lemma iter_ok_length:
  assumes "slot_ok s" "iter_ok s"
  shows "length (iteration_work (trace s)) \<le> 1"
proof (cases "in_dispatch (pc s)")
  case True
  from slot_ok_only_flag [OF assms(1) True] obtain x where x: "fl s = only_flag x" by blast
  from assms(2) True have
    "iteration_work (trace s) = (if rank x < served_count (pc s) then [x] else [])"
    unfolding iter_ok_def x rank_filter by (cases "pc s") (simp_all add: in_dispatch_def)
  then show ?thesis by simp
next
  case False
  then consider "pc s = PC_top" | "pc s = PC_waiting" | "pc s = PC_returned"
    by (auto simp add: in_dispatch_def)
  then show ?thesis
    using assms(2) by cases (auto simp add: iter_ok_def one_kind_only_flag)
qed

text \<open>
  C10: in every execution from an idle state, in the dispatch phase exactly one of the
  nine flags is set (the flags are those of one source alone), and while the worker waits
  none is; an iteration calls at most one work operation, and a finished iteration, at the
  end of the loop body or at the return of the entry function, has called exactly one,
  that of the flagged source. An evaluation of the wait condition that ends the loop sets
  the flag of the first pending source of the chain and no other.
\<close>

theorem one_work_kind_per_iteration:
  assumes "idle s0" "exec debug acts s0 = Inr s"
  shows "(in_dispatch (pc s) \<longrightarrow> num_true (fl s) = 1 \<and> (\<exists>x. fl s = only_flag x))
       \<and> (pc s = PC_waiting \<longrightarrow> num_true (fl s) = 0)
       \<and> length (iteration_work (trace s)) \<le> 1
       \<and> (pc s = PC_top \<and> EnterBlocked \<in> set (trace s) \<longrightarrow>
            num_true (fl s) = 1
            \<and> iteration_work (trace s) = filter (flag_of (fl s)) priority_order
            \<and> length (iteration_work (trace s)) = 1)
       \<and> (pc s = PC_returned \<longrightarrow> length (iteration_work (trace s)) = 1)
       \<and> (\<forall>ev q w g ps. wait_condition ev (q :: 'a list) declared_flags = (w, g, ps) \<longrightarrow> \<not> w \<longrightarrow>
            num_true g = 1
            \<and> (\<exists>x. g = only_flag x
                 \<and> filter (has_work ev q) (up_to_first_pending ev q condition_order) = [x]))"
proof -
  have "slot_ok s0 \<and> iter_ok s0"
    using idle_invariants [OF assms(1)] by simp
  then have "slot_ok s \<and> iter_ok s"
    by (rule exec_invariant [where P = "\<lambda>s. slot_ok s \<and> iter_ok s", rotated 1, OF _ assms(2)])
      (auto intro: slot_ok_step iter_ok_step)
  then have ok: "slot_ok s" and it: "iter_ok s" by simp_all
  have 1: "in_dispatch (pc s) \<longrightarrow> num_true (fl s) = 1 \<and> (\<exists>x. fl s = only_flag x)"
    using slot_ok_only_flag [OF ok] num_true_only_flag by auto
  have 2: "pc s = PC_waiting \<longrightarrow> num_true (fl s) = 0"
    using ok by (auto simp add: slot_ok_def num_true_declared)
  have 3: "length (iteration_work (trace s)) \<le> 1" by (rule iter_ok_length [OF ok it])
  have 4: "pc s = PC_top \<and> EnterBlocked \<in> set (trace s) \<longrightarrow>
            num_true (fl s) = 1
            \<and> iteration_work (trace s) = filter (flag_of (fl s)) priority_order
            \<and> length (iteration_work (trace s)) = 1"
    using it by (auto simp add: iter_ok_def num_true_only_flag one_kind_only_flag)
  have 5: "pc s = PC_returned \<longrightarrow> length (iteration_work (trace s)) = 1"
    using it by (auto simp add: iter_ok_def)
  have 6: "num_true g = 1
            \<and> (\<exists>x. g = only_flag x
                 \<and> filter (has_work ev q) (up_to_first_pending ev q condition_order) = [x])"
    if "wait_condition ev (q :: 'a list) declared_flags = (w, g, ps)" "\<not> w" for ev q w g ps
    using that conjuncts_first_pending [of condition_order ev q w g ps] num_true_only_flag
    by (auto simp add: wait_condition_def)
  from 1 2 3 4 5 6 show ?thesis by blast
qed

lemma iteration_run_result:
  "(case exec True iteration_run booted of
      Inl err \<Rightarrow> False
    | Inr s \<Rightarrow> pc s = PC_top \<and> EnterBlocked \<in> set (trace s)
               \<and> works (trace s) = [LowMemoryDetector]
               \<and> fl s = only_flag LowMemoryDetector)"
  by code_simp

theorem one_work_kind_per_iteration_witness:
  "idle booted
   \<and> (\<exists>s. exec True iteration_run booted = Inr s
          \<and> pc s = PC_top \<and> EnterBlocked \<in> set (trace s)
          \<and> works (trace s) = [LowMemoryDetector]
          \<and> num_true (fl s) = 1
          \<and> iteration_work (trace s) = [LowMemoryDetector])"
proof -
  from iteration_run_result obtain s where
    s: "exec True iteration_run booted = Inr s" "pc s = PC_top" "EnterBlocked \<in> set (trace s)"
      "works (trace s) = [LowMemoryDetector]" "fl s = only_flag LowMemoryDetector"
    by (cases "exec True iteration_run booted") auto
  from one_work_kind_per_iteration [OF idle_booted s(1)] s idle_booted
  show ?thesis by (auto simp add: one_kind_only_flag)
qed

subsection \<open>Executions: order, conservation, root scan\<close>

lemma exec_append:
  "exec debug (as @ bs) s =
     (case exec debug as s of Inl err \<Rightarrow> Inl err | Inr s' \<Rightarrow> exec debug bs s')"
  by (induction as arbitrary: s) (auto split: sum.splits)

lemma enqueued_append: "enqueued (as @ bs) = enqueued as @ enqueued bs"
  by (induction as rule: enqueued.induct) simp_all

lemma enqueued_workers: "enqueued (map Worker envs) = []"
  by (induction envs) simp_all

lemma queue_first_polled:
  assumes "queue_first ev" "jvmti_service_queue s \<noteq> []"
  shows "polled_true ev s = [JvmtiServiceQueue]"
  using assms
  by (simp add: polled_true_def up_to_first_pending_def condition_order_def queue_first_def
      has_events_def)

lemma empty_queue_polled:
  assumes "jvmti_service_queue s = []"
  shows "polled_true ev s \<noteq> [JvmtiServiceQueue]"
proof
  assume "polled_true ev s = [JvmtiServiceQueue]"
  then have "JvmtiServiceQueue \<in> set (polled_true ev s)" by simp
  then have "has_work ev (jvmti_service_queue s) JvmtiServiceQueue"
    by (simp add: polled_true_def)
  with assms show False by (simp add: has_events_def)
qed

lemma polled_true_frame [simp]:
  "polled_true ev (s\<lparr>fl := g, trace := t\<rparr>) = polled_true ev s"
  by (simp add: polled_true_def)

lemma wait_loop_progress:
  assumes d: "fl s = declared_flags" and q: "queue_first ev"
    and n: "jvmti_event s = None" and p: "pc s = PC_top \<or> pc s = PC_waiting"
    and w: "wait_loop_pass ev s = Inr s'"
  shows "pc s' \<noteq> PC_returned
         \<and> (drained s \<longrightarrow> drained s')
         \<and> (\<not> drained s \<longrightarrow> drain_bound s' < drain_bound s)"
proof (cases "jvmti_service_queue s = []")
  case True
  with p have dr: "drained s" by (auto simp add: drained_def pending_def)
  from empty_queue_polled [OF True, of ev] have ne: "polled_true ev s \<noteq> [JvmtiServiceQueue]" .
  show ?thesis
    by (rule wait_loop_pass_result [OF d, of ev])
      (use w True n ne dr in \<open>auto simp add: drained_def pending_def\<close>)
next
  case False
  from queue_first_polled [OF q False] have pt: "polled_true ev s = [JvmtiServiceQueue]" .
  from False have nd: "\<not> drained s" by (simp add: drained_def)
  show ?thesis
    by (rule wait_loop_pass_result [OF d, of ev])
      (use w pt nd p in \<open>auto simp add: drain_bound_def\<close>)
qed

lemma worker_progress:
  assumes ok: "slot_ok s" and r: "pc s \<noteq> PC_returned" and q: "queue_first ev"
    and w: "worker_step ev s = Inr s'"
  shows "pc s' \<noteq> PC_returned
         \<and> (drained s \<longrightarrow> drained s')
         \<and> (\<not> drained s \<longrightarrow> drain_bound s' < drain_bound s)"
proof (cases "pc s")
  case PC_top
  let ?s1 = "s\<lparr>fl := declared_flags, trace := trace s @ [EnterBlocked, Lock]\<rparr>"
  have d: "fl ?s1 = declared_flags" by simp
  from ok PC_top have n: "jvmti_event ?s1 = None" by (simp add: slot_ok_def)
  from PC_top have p: "pc ?s1 = PC_top \<or> pc ?s1 = PC_waiting" by simp
  from w have w1: "wait_loop_pass ev ?s1 = Inr s'" by (simp add: worker_step_top [OF PC_top])
  from wait_loop_progress [OF d q n p w1] PC_top show ?thesis
    by (simp add: drained_def drain_bound_def pending_def)
next
  case PC_waiting
  let ?s1 = "s\<lparr>trace := trace s @ [Woken]\<rparr>"
  from ok PC_waiting have d: "fl ?s1 = declared_flags" and n: "jvmti_event ?s1 = None"
    by (simp_all add: slot_ok_def)
  from PC_waiting have p: "pc ?s1 = PC_top \<or> pc ?s1 = PC_waiting" by simp
  from w have w1: "wait_loop_pass ev ?s1 = Inr s'"
    by (simp add: worker_step_waiting [OF PC_waiting])
  from wait_loop_progress [OF d q n p w1] PC_waiting show ?thesis
    by (simp add: drained_def drain_bound_def pending_def)
qed (use assms in \<open>auto simp add: dispatch_defs drained_def drain_bound_def pending_def
      queue_first_def slot_ok_def split: option.splits if_splits\<close>)

lemma worker_step_started:
  "worker_step ev s = Inr s' \<Longrightarrow> started s' = started s"
  by (cases "pc s")
    (auto simp add: dispatch_defs wait_loop_pass_def Let_def
      split: option.splits if_splits prod.splits)

lemma drain:
  assumes "slot_ok s" "started s \<noteq> []" "pc s \<noteq> PC_returned"
    and "\<forall>ev\<in>set envs. queue_first ev"
    and "drained s \<or> drain_bound s \<le> length envs"
  shows "\<exists>s'. exec debug (map Worker envs) s = Inr s' \<and> drained s'"
  using assms
proof (induction envs arbitrary: s)
  case Nil
  then have "drained s \<or> (jvmti_service_queue s = [] \<and> steps_left (pc s) = 0)"
    by (simp add: drain_bound_def)
  moreover have "pending s = []" if "steps_left (pc s) = 0"
    using that by (cases "pc s") (simp_all add: pending_def)
  ultimately show ?case by (auto simp add: drained_def)
next
  case (Cons ev envs)
  from slot_ok_worker [OF Cons.prems(1), of ev] obtain s1 where
    s1: "worker_step ev s = Inr s1" "slot_ok s1" by blast
  from Cons.prems(4) have q: "queue_first ev" and qs: "\<forall>ev\<in>set envs. queue_first ev"
    by simp_all
  from worker_progress [OF Cons.prems(1,3) q s1(1)] have
    p: "pc s1 \<noteq> PC_returned" "drained s \<longrightarrow> drained s1"
      "\<not> drained s \<longrightarrow> drain_bound s1 < drain_bound s"
    by simp_all
  from worker_step_started [OF s1(1)] Cons.prems(2) have st: "started s1 \<noteq> []" by simp
  from p Cons.prems(5) have "drained s1 \<or> drain_bound s1 \<le> length envs" by auto
  from Cons.IH [OF s1(2) st p(1) qs this] obtain s' where
    "exec debug (map Worker envs) s1 = Inr s'" "drained s'" by blast
  with s1(1) Cons.prems(2) show ?case by (simp add: step_def)
qed

lemma step_started:
  "step debug a s = Inr s' \<Longrightarrow> started s' = started s"
  by (cases a)
    (auto simp add: step_def worker_step_started dest: enqueue_result split: if_splits)

lemma delivered_in_the_end:
  assumes "idle s0" "exec debug acts s0 = Inr s" "started s \<noteq> []" "pc s \<noteq> PC_returned"
    and "\<forall>ev\<in>set envs. queue_first ev" "drain_bound s \<le> length envs"
  shows "\<exists>s'. exec debug (map Worker envs) s = Inr s'
           \<and> deqs (trace s') = enqueued acts \<and> posts (trace s') = enqueued acts
           \<and> jvmti_service_queue s' = [] \<and> lock_free s'"
proof -
  from reachable_fifo(1) [OF assms(1,2)] have ok: "slot_ok s" .
  from drain [OF ok assms(3,4,5), of debug] assms(6) obtain s' where
    s': "exec debug (map Worker envs) s = Inr s'" "drained s'" by blast
  from assms(2) s'(1) have all: "exec debug (acts @ map Worker envs) s0 = Inr s'"
    by (simp add: exec_append)
  from reachable_fifo [OF assms(1) all] have
    "fifo_ok s'" "enqs (trace s') = enqueued acts" "lock_free s'"
    by (simp_all add: enqueued_append enqueued_workers)
  with s' show ?thesis by (auto simp add: fifo_ok_def drained_def)
qed

text \<open>
  C1: in every execution from an idle state, the events of the
  \<^verbatim>\<open>enqueue_deferred_event\<close> calls, in the order of the calls, are the events
  dequeued so far, in the order of the dequeues, followed by the queue; the events posted
  are the events dequeued, in the same order, but for at most one event that is dequeued
  and not yet posted. And the worker gets there: with the thread started and its entry
  function not returned, after \<open>drain_bound\<close> or more of its steps, taken while the
  low-memory detector has nothing pending and no notification raises, the sequence of the
  events dequeued and the sequence of the events posted are each the sequence of the
  enqueue calls, and the queue is empty.
\<close>

theorem fifo_delivery:
  assumes "idle s0" "exec debug acts s0 = Inr s"
  shows "enqueued acts = deqs (trace s) @ jvmti_service_queue s
       \<and> deqs (trace s) = posts (trace s) @ pending s
       \<and> length (pending s) \<le> 1
       \<and> (started s \<noteq> [] \<and> pc s \<noteq> PC_returned \<longrightarrow>
            (\<forall>envs. (\<forall>ev\<in>set envs. queue_first ev) \<and> drain_bound s \<le> length envs \<longrightarrow>
               (\<exists>s'. exec debug (map Worker envs) s = Inr s'
                     \<and> deqs (trace s') = enqueued acts
                     \<and> posts (trace s') = enqueued acts
                     \<and> jvmti_service_queue s' = [])))"
proof -
  from reachable_fifo [OF assms] have
    a: "enqueued acts = deqs (trace s) @ jvmti_service_queue s"
    and b: "deqs (trace s) = posts (trace s) @ pending s"
    by (simp_all add: fifo_ok_def)
  have c: "\<exists>s'. exec debug (map Worker envs) s = Inr s'
                     \<and> deqs (trace s') = enqueued acts
                     \<and> posts (trace s') = enqueued acts
                     \<and> jvmti_service_queue s' = []"
    if "started s \<noteq> []" "pc s \<noteq> PC_returned" "\<forall>ev\<in>set envs. queue_first ev"
      "drain_bound s \<le> length envs" for envs
    using delivered_in_the_end [OF assms that] by blast
  from a b c pending_short [of s] show ?thesis by blast
qed

lemma two_events_result:
  "(case exec True two_events booted of
      Inl err \<Rightarrow> False
    | Inr s \<Rightarrow> jvmti_service_queue s = [1, 2] \<and> pc s = PC_top \<and> started s \<noteq> []
               \<and> posts (trace s) = [])"
  by code_simp

lemma quiet_queue_first: "\<forall>ev\<in>set (replicate n quiet). queue_first ev"
  by (simp add: queue_first_def quiet_def)

theorem fifo_delivery_witness:
  "idle booted
   \<and> enqueued two_events = [1, 2]
   \<and> (\<exists>s s'. exec True two_events booted = Inr s
          \<and> started s \<noteq> [] \<and> pc s \<noteq> PC_returned
          \<and> drain_bound s \<le> length (replicate 20 quiet)
          \<and> exec True (map Worker (replicate 20 quiet)) s = Inr s'
          \<and> deqs (trace s') = [1, 2] \<and> posts (trace s') = [1, 2]
          \<and> jvmti_service_queue s' = [])"
proof -
  from two_events_result obtain s where
    s: "exec True two_events booted = Inr s" "jvmti_service_queue s = [1, 2]"
      "pc s = PC_top" "started s \<noteq> []"
    by (cases "exec True two_events booted") auto
  have e: "enqueued two_events = [1, 2]" by (simp add: two_events_def)
  have b: "drain_bound s \<le> length (replicate 20 quiet)"
    using s by (simp add: drain_bound_def)
  from s have r: "started s \<noteq> [] \<and> pc s \<noteq> PC_returned" by simp
  from fifo_delivery [OF idle_booted s(1)] r quiet_queue_first [of 20] b e
  obtain s' where "exec True (map Worker (replicate 20 quiet)) s = Inr s'"
    "deqs (trace s') = [1, 2]" "posts (trace s') = [1, 2]" "jvmti_service_queue s' = []"
    by (metis (no_types, lifting))
  with s r b e idle_booted show ?thesis by blast
qed

text \<open>
  C2: in every execution from an idle state, the multiset of the events enqueued is the
  multiset of the events dequeued together with that of the events still in the queue:
  none is lost, skipped or duplicated. The worker drains the queue: with the thread
  started and its entry function not returned, after \<open>drain_bound\<close> or more of its
  steps, taken while the low-memory detector has nothing pending and no notification
  raises, the multiset of the events dequeued is the multiset of the events enqueued.
  Every \<^verbatim>\<open>enqueue\<close> and \<^verbatim>\<open>dequeue\<close> on the queue is made with
  \<^verbatim>\<open>Service_lock\<close> held.
\<close>

theorem no_loss_no_duplication:
  assumes "idle s0" "exec debug acts s0 = Inr s"
  shows "mset (enqueued acts) = mset (deqs (trace s)) + mset (jvmti_service_queue s)
       \<and> (jvmti_service_queue s = [] \<longrightarrow> mset (deqs (trace s)) = mset (enqueued acts))
       \<and> queue_ops_under_lock (trace s)
       \<and> (started s \<noteq> [] \<and> pc s \<noteq> PC_returned \<longrightarrow>
            (\<forall>envs. (\<forall>ev\<in>set envs. queue_first ev) \<and> drain_bound s \<le> length envs \<longrightarrow>
               (\<exists>s'. exec debug (map Worker envs) s = Inr s'
                     \<and> mset (deqs (trace s')) = mset (enqueued acts)
                     \<and> jvmti_service_queue s' = []
                     \<and> queue_ops_under_lock (trace s'))))"
proof -
  from reachable_fifo [OF assms] have
    a: "enqueued acts = deqs (trace s) @ jvmti_service_queue s"
    and l: "lock_free s"
    by (simp_all add: fifo_ok_def)
  from a have "mset (enqueued acts) = mset (deqs (trace s) @ jvmti_service_queue s)"
    by simp
  then have m: "mset (enqueued acts) = mset (deqs (trace s)) + mset (jvmti_service_queue s)"
    by simp
  from l have u: "queue_ops_under_lock (trace s)"
    by (simp add: lock_free_def queue_ops_under_lock_def)
  have c: "\<exists>s'. exec debug (map Worker envs) s = Inr s'
                     \<and> mset (deqs (trace s')) = mset (enqueued acts)
                     \<and> jvmti_service_queue s' = []
                     \<and> queue_ops_under_lock (trace s')"
    if "started s \<noteq> []" "pc s \<noteq> PC_returned" "\<forall>ev\<in>set envs. queue_first ev"
      "drain_bound s \<le> length envs" for envs
  proof -
    from delivered_in_the_end [OF assms that] obtain s' where
      "exec debug (map Worker envs) s = Inr s'" "deqs (trace s') = enqueued acts"
      "jvmti_service_queue s' = []" "lock_free s'"
      by blast
    then show ?thesis by (auto simp add: lock_free_def queue_ops_under_lock_def)
  qed
  from m u c show ?thesis by simp
qed

lemma twin_events_result:
  "(case exec True twin_events booted of
      Inl err \<Rightarrow> False
    | Inr s \<Rightarrow> jvmti_service_queue s = [4, 4, 9] \<and> pc s = PC_top \<and> started s \<noteq> []
               \<and> deqs (trace s) = [])"
  by code_simp

theorem no_loss_no_duplication_witness:
  "idle booted
   \<and> mset (enqueued twin_events) = {#4, 4, 9#}
   \<and> (\<exists>s s'. exec True twin_events booted = Inr s
          \<and> started s \<noteq> [] \<and> pc s \<noteq> PC_returned
          \<and> drain_bound s \<le> length (replicate 30 quiet)
          \<and> exec True (map Worker (replicate 30 quiet)) s = Inr s'
          \<and> mset (deqs (trace s')) = {#4, 4, 9#}
          \<and> jvmti_service_queue s' = []
          \<and> queue_ops_under_lock (trace s'))"
proof -
  from twin_events_result obtain s where
    s: "exec True twin_events booted = Inr s" "jvmti_service_queue s = [4, 4, 9]"
      "pc s = PC_top" "started s \<noteq> []"
    by (cases "exec True twin_events booted") auto
  have e: "mset (enqueued twin_events) = {#4, 4, 9#}" by (simp add: twin_events_def)
  have b: "drain_bound s \<le> length (replicate 30 quiet)"
    using s by (simp add: drain_bound_def)
  from s have r: "started s \<noteq> [] \<and> pc s \<noteq> PC_returned" by simp
  from no_loss_no_duplication [OF idle_booted s(1)] r quiet_queue_first [of 30] b e
  obtain s' where "exec True (map Worker (replicate 30 quiet)) s = Inr s'"
    "mset (deqs (trace s')) = {#4, 4, 9#}" "jvmti_service_queue s' = []"
    "queue_ops_under_lock (trace s')"
    by (metis (no_types, lifting))
  with s r b e idle_booted show ?thesis by blast
qed







subsection \<open>What the readings of a trace refuse\<close>

lemma single_dispatch_refuses:
  "\<not> single_dispatch
       [EnterBlocked, Poll StringTable True, LeaveBlocked,
        Perform StringTable, Perform StringTable :: nat obs]"
  "\<not> single_dispatch
       [EnterBlocked, Poll StringTable True, LeaveBlocked, Perform SymbolTable :: nat obs]"
  "\<not> single_dispatch
       [EnterBlocked, Poll StringTable True, LeaveBlocked, Perform StringTable,
        Poll SymbolTable True :: nat obs]"
  "\<not> single_dispatch
       [EnterBlocked, Poll StringTable True, LeaveBlocked, Perform StringTable,
        EnterBlocked, Poll StringTable False, LeaveBlocked, Perform StringTable :: nat obs]"
  by (simp_all add: single_dispatch_def)

lemma queue_ops_under_lock_refuses:
  "\<not> queue_ops_under_lock [QEnqueue (1::nat)]"
  "\<not> queue_ops_under_lock [Lock, QEnqueue (1::nat), Unlock, QDequeue 1]"
  "\<not> queue_ops_under_lock [Lock, Wait, QDequeue (1::nat)]"
  "\<not> queue_ops_under_lock [Lock, Lock :: nat obs]"
  by (simp_all add: queue_ops_under_lock_def)

end
